theory Spec2Isabelle
  imports Main "HOL-Library.Sublist" "HOL-Library.Word"
begin

section \<open>C strings\<close>

text \<open>
  The web server module works on NUL-terminated \<^verbatim>\<open>char\<close> buffers. A buffer is
  modelled as the list of its bytes; \<open>c_str\<close> is the string a C library function sees
  in it (the bytes before the first NUL), and \<open>strstr\<close> is the offset of the first
  occurrence of a needle in such a string (\<open>None\<close> for the C function's NULL).
\<close>

definition NUL :: char where
  "NUL = CHR 0x00"

definition c_str :: "string \<Rightarrow> string" where
  "c_str bs = takeWhile (\<lambda>c. c \<noteq> NUL) bs"

fun strstr :: "string \<Rightarrow> string \<Rightarrow> nat option" where
  "strstr [] n = (if n = [] then Some 0 else None)"
| "strstr (c # cs) n = (if prefix n (c # cs) then Some 0 else map_option Suc (strstr cs n))"


lemma strstr_Cons_prefix: "prefix n (c # cs) \<Longrightarrow> strstr (c # cs) n = Some 0"
  by simp

lemma strstr_Cons_noprefix:
  "\<not> prefix n (c # cs) \<Longrightarrow> strstr (c # cs) n = map_option Suc (strstr cs n)"
  by simp

declare strstr.simps(2) [simp del]

lemma strstr_SomeD:
  "strstr s n = Some i \<Longrightarrow> i + length n \<le> length s \<and> take (length n) (drop i s) = n"
proof (induction s arbitrary: i)
  case Nil
  then show ?case by (auto split: if_splits)
next
  case (Cons c cs)
  show ?case
  proof (cases "prefix n (c # cs)")
    case True
    from Cons.prems strstr_Cons_prefix[OF True] have "i = 0" by simp
    moreover from True obtain zs where "c # cs = n @ zs" by (auto simp: prefix_def)
    then have "length n \<le> length (c # cs)" "take (length n) (c # cs) = n"
      by (metis length_append le_add1, metis append_eq_conv_conj)
    ultimately show ?thesis by simp
  next
    case False
    with Cons.prems obtain j where j: "strstr cs n = Some j" "i = Suc j"
      by (auto simp: strstr_Cons_noprefix)
    from Cons.IH[OF j(1)] j(2) show ?thesis by simp
  qed
qed

lemma strstr_first:
  "strstr s n = Some i \<Longrightarrow> j < i \<Longrightarrow> \<not> prefix n (drop j s)"
proof (induction s arbitrary: i j)
  case Nil
  then show ?case by (auto split: if_splits)
next
  case (Cons c cs)
  show ?case
  proof (cases "prefix n (c # cs)")
    case True
    from Cons.prems strstr_Cons_prefix[OF True] show ?thesis by simp
  next
    case False
    with Cons.prems obtain k where k: "strstr cs n = Some k" "i = Suc k"
      by (auto simp: strstr_Cons_noprefix)
    show ?thesis
    proof (cases j)
      case 0
      with False show ?thesis by simp
    next
      case (Suc j')
      with Cons.prems k have "j' < k" by simp
      from Cons.IH[OF k(1) this] Suc show ?thesis by simp
    qed
  qed
qed

lemma strstr_None_iff: "strstr s n = None \<longleftrightarrow> \<not> sublist n s"
proof (induction s)
  case Nil
  then show ?case by auto
next
  case (Cons c cs)
  then show ?case
    by (cases "prefix n (c # cs)")
       (auto simp: sublist_Cons_right strstr_Cons_prefix strstr_Cons_noprefix)
qed


lemma strstr_split:
  assumes "strstr s n = Some i"
  shows "s = take i s @ n @ drop (i + length n) s"
proof -
  from strstr_SomeD[OF assms] have "take (length n) (drop i s) = n" by simp
  then have "drop i s = n @ drop (length n) (drop i s)"
    by (metis append_take_drop_id)
  then have "take i s @ drop i s = take i s @ n @ drop (i + length n) s"
    by (simp add: add.commute)
  then show ?thesis by simp
qed

lemma strstr_dotdot_update:
  assumes "strstr s ''..'' = Some i"
  shows "s[i := CHR ''_'', Suc i := CHR ''_''] = take i s @ ''__'' @ drop (i + 2) s"
proof -
  from strstr_SomeD[OF assms] have len: "i + 2 \<le> length s" by simp
  from strstr_split[OF assms] have s: "s = take i s @ ''..'' @ drop (i + 2) s" by simp
  have li: "length (take i s) = i" using len by simp
  have "(take i s @ ''..'' @ drop (i + 2) s)[i := CHR ''_'', Suc i := CHR ''_'']
        = take i s @ ''__'' @ drop (i + 2) s"
    using li by (simp add: list_update_append)
  with s show ?thesis by metis
qed

section \<open>build\_filepath\<close>

text \<open>
  \<^verbatim>\<open>build_filepath(dst, dst_size, path1, path2)\<close>: \<^verbatim>\<open>snprintf\<close> of
  \<^verbatim>\<open>"%s/%s"\<close> into \<open>dst\<close> (truncated to \<open>dst_size - 1\<close> characters), then the
  loop that overwrites the first \<^verbatim>\<open>".."\<close> found by \<^verbatim>\<open>strstr\<close> with
  \<^verbatim>\<open>"__"\<close> until none is left. A NULL \<open>path2\<close> is \<open>None\<close>; that branch
  returns before the loop. \<open>dst_size = 0\<close> makes the source write \<open>dst[-1]\<close>, which
  is the result \<open>None\<close> here.
\<close>

definition dots :: "string \<Rightarrow> nat" where
  "dots s = length (filter (\<lambda>c. c = CHR ''.'') s)"

lemma dots_update_less:
  assumes "strstr s ''..'' = Some i"
  shows "dots (s[i := CHR ''_'', Suc i := CHR ''_'']) < dots s"
proof -
  have "dots (take i s @ ''__'' @ drop (i + 2) s) < dots (take i s @ ''..'' @ drop (i + 2) s)"
    by (simp add: dots_def)
  with strstr_dotdot_update[OF assms] strstr_split[OF assms] show ?thesis by simp
qed

function sanitize_dotdot :: "string \<Rightarrow> string" where
  "sanitize_dotdot s =
     (case strstr s ''..'' of
        None \<Rightarrow> s
      | Some i \<Rightarrow> sanitize_dotdot (s[i := CHR ''_'', Suc i := CHR ''_'']))"
  by pat_completeness auto
termination
  by (relation "measure dots") (auto simp: dots_update_less)

declare sanitize_dotdot.simps [simp del]

definition build_filepath :: "nat \<Rightarrow> string \<Rightarrow> string option \<Rightarrow> string option" where
  "build_filepath dst_size path1 path2 =
     (if dst_size = 0 then None
      else case path2 of
        None \<Rightarrow> Some (take (dst_size - 1) (c_str path1 @ ''/unknown_filename''))
      | Some p2 \<Rightarrow>
          Some (sanitize_dotdot (take (dst_size - 1) (c_str path1 @ ''/'' @ c_str p2))))"

text \<open>
  The substitution the specification describes: one pass from left to right, each
  \<^verbatim>\<open>".."\<close> replaced by \<^verbatim>\<open>"__"\<close>.
\<close>

fun replace_dotdot :: "string \<Rightarrow> string" where
  "replace_dotdot (a # b # cs) =
     (if a = CHR ''.'' \<and> b = CHR ''.'' then CHR ''_'' # CHR ''_'' # replace_dotdot cs
      else a # replace_dotdot (b # cs))"
| "replace_dotdot cs = cs"


lemma sanitize_no_dotdot: "\<not> sublist ''..'' (sanitize_dotdot s)"
proof (induction s rule: sanitize_dotdot.induct)
  case (1 s)
  show ?case
  proof (cases "strstr s ''..''")
    case None
    then have "sanitize_dotdot s = s" by (simp add: sanitize_dotdot.simps)
    with None show ?thesis by (simp add: strstr_None_iff)
  next
    case (Some i)
    with 1 show ?thesis by (simp add: sanitize_dotdot.simps)
  qed
qed

lemma replace_dotdot_first:
  "strstr s ''..'' = Some i \<Longrightarrow>
   replace_dotdot s = take i s @ ''__'' @ replace_dotdot (drop (i + 2) s)"
proof (induction s arbitrary: i)
  case Nil
  then show ?case by simp
next
  case (Cons c cs)
  show ?case
  proof (cases "prefix ''..'' (c # cs)")
    case True
    then obtain r where "c # cs = ''..'' @ r" by (auto simp: prefix_def)
    moreover from Cons.prems strstr_Cons_prefix[OF True] have "i = 0" by simp
    ultimately show ?thesis by simp
  next
    case False
    from Cons.prems strstr_Cons_noprefix[OF False]
    obtain j where j: "strstr cs ''..'' = Some j" "i = Suc j" by auto
    from strstr_SomeD[OF j(1)] obtain b cs' where cs: "cs = b # cs'" by (cases cs) auto
    from False cs have "\<not> (c = CHR ''.'' \<and> b = CHR ''.'')" by auto
    with cs have "replace_dotdot (c # cs) = c # replace_dotdot cs" by auto
    with Cons.IH[OF j(1)] j(2) show ?thesis by simp
  qed
qed

lemma replace_dotdot_nodot:
  "a \<noteq> CHR ''.'' \<Longrightarrow> replace_dotdot (a # r) = a # replace_dotdot r"
  by (cases r) simp_all

lemma replace_dotdot_patched:
  "strstr s ''..'' = Some i \<Longrightarrow>
   replace_dotdot (take i s @ ''__'' @ r) = take i s @ ''__'' @ replace_dotdot r"
proof (induction s arbitrary: i)
  case Nil
  then show ?case by simp
next
  case (Cons c cs)
  show ?case
  proof (cases "prefix ''..'' (c # cs)")
    case True
    from Cons.prems strstr_Cons_prefix[OF True] have "i = 0" by simp
    then show ?thesis by (simp add: replace_dotdot_nodot)
  next
    case False
    from Cons.prems strstr_Cons_noprefix[OF False]
    obtain j where j: "strstr cs ''..'' = Some j" "i = Suc j" by auto
    from strstr_SomeD[OF j(1)] obtain b cs' where cs: "cs = b # cs'" by (cases cs) auto
    from False cs have nd: "\<not> (c = CHR ''.'' \<and> b = CHR ''.'')" by auto
    have "replace_dotdot (c # take j cs @ ''__'' @ r) = c # replace_dotdot (take j cs @ ''__'' @ r)"
      using nd cs by (cases j) auto
    with Cons.IH[OF j(1)] j(2) show ?thesis by simp
  qed
qed

lemma replace_dotdot_id: "\<not> sublist ''..'' s \<Longrightarrow> replace_dotdot s = s"
proof (induction s rule: replace_dotdot.induct)
  case (1 a b cs)
  have "\<not> (a = CHR ''.'' \<and> b = CHR ''.'')"
  proof
    assume "a = CHR ''.'' \<and> b = CHR ''.''"
    then have "prefix ''..'' (a # b # cs)" by simp
    then have "sublist ''..'' (a # b # cs)" by (rule prefix_imp_sublist)
    with 1 show False by simp
  qed
  moreover from 1 have "\<not> sublist ''..'' (b # cs)" by (auto simp: sublist_Cons_right)
  ultimately show ?case using 1 by auto
qed simp_all

lemma sanitize_is_replace: "sanitize_dotdot s = replace_dotdot s"
proof (induction s rule: sanitize_dotdot.induct)
  case (1 s)
  show ?case
  proof (cases "strstr s ''..''")
    case None
    then have "sanitize_dotdot s = s" by (simp add: sanitize_dotdot.simps)
    with None show ?thesis by (simp add: strstr_None_iff replace_dotdot_id)
  next
    case (Some i)
    let ?s' = "s[i := CHR ''_'', Suc i := CHR ''_'']"
    have "sanitize_dotdot s = sanitize_dotdot ?s'" using Some by (simp add: sanitize_dotdot.simps)
    also have "\<dots> = replace_dotdot ?s'" using 1 Some by simp
    also have "\<dots> = replace_dotdot (take i s @ ''__'' @ drop (i + 2) s)"
      using strstr_dotdot_update[OF Some] by simp
    also have "\<dots> = take i s @ ''__'' @ replace_dotdot (drop (i + 2) s)"
      by (rule replace_dotdot_patched[OF Some])
    also have "\<dots> = replace_dotdot s" by (rule replace_dotdot_first[OF Some, symmetric])
    finally show ?thesis .
  qed
qed


lemma replace_dotdot_keeps_prefix:
  "\<not> sublist ''..'' p \<Longrightarrow>
   replace_dotdot (p @ CHR ''/'' # r) = p @ CHR ''/'' # replace_dotdot r"
proof (induction p rule: replace_dotdot.induct)
  case (1 a b cs)
  have nd: "\<not> (a = CHR ''.'' \<and> b = CHR ''.'')"
  proof
    assume "a = CHR ''.'' \<and> b = CHR ''.''"
    then have "prefix ''..'' (a # b # cs)" by simp
    then have "sublist ''..'' (a # b # cs)" by (rule prefix_imp_sublist)
    with 1 show False by simp
  qed
  from 1 have "\<not> sublist ''..'' (b # cs)" by (auto simp: sublist_Cons_right)
  with 1 nd show ?case by auto
qed (simp_all add: replace_dotdot_nodot)

lemma replace_dotdot_length: "length (replace_dotdot s) = length s"
  by (induction s rule: replace_dotdot.induct) auto

lemma replace_dotdot_nth:
  "i < length s \<Longrightarrow>
   replace_dotdot s ! i = s ! i \<or> (s ! i = CHR ''.'' \<and> replace_dotdot s ! i = CHR ''_'')"
proof (induction s arbitrary: i rule: replace_dotdot.induct)
  case (1 a b cs)
  show ?case
  proof (cases "a = CHR ''.'' \<and> b = CHR ''.''")
    case True
    show ?thesis
    proof (cases i)
      case 0
      with True show ?thesis by simp
    next
      case (Suc j)
      note j = this
      show ?thesis
      proof (cases j)
        case 0
        with True j show ?thesis by simp
      next
        case (Suc k)
        with 1 True j show ?thesis by simp
      qed
    qed
  next
    case False
    show ?thesis
    proof (cases i)
      case 0
      with False show ?thesis by auto
    next
      case (Suc j)
      with 1(2)[OF False, of j] 1(3) False show ?thesis by auto
    qed
  qed
qed simp_all

text \<open>
  C6. For every mount point and every filename string, the path that
  \<open>build_filepath\<close> produces contains no \<^verbatim>\<open>".."\<close> substring; it is the composed
  (and truncated) path with each \<^verbatim>\<open>".."\<close> met from left to right overwritten by
  \<^verbatim>\<open>"__"\<close>, nothing else changed and nothing resolved; and when the mount point
  itself has no \<^verbatim>\<open>".."\<close> and fits the buffer, the result still starts with the
  mount point and its slash.
\<close>

theorem build_filepath_no_dotdot:
  assumes "build_filepath dst_size path1 (Some path2) = Some r"
  shows "\<not> sublist ''..'' r
       \<and> r = replace_dotdot (take (dst_size - 1) (c_str path1 @ ''/'' @ c_str path2))
       \<and> length r = min (dst_size - 1) (length (c_str path1) + 1 + length (c_str path2))
       \<and> (\<not> sublist ''..'' (c_str path1) \<and> length (c_str path1) + 1 < dst_size
            \<longrightarrow> prefix (c_str path1 @ ''/'') r)"
proof -
  let ?raw = "take (dst_size - 1) (c_str path1 @ ''/'' @ c_str path2)"
  from assms have r: "r = sanitize_dotdot ?raw"
    by (auto simp: build_filepath_def split: if_splits)
  have a: "\<not> sublist ''..'' r" unfolding r by (rule sanitize_no_dotdot)
  have b: "r = replace_dotdot ?raw" unfolding r by (rule sanitize_is_replace)
  have c: "length r = min (dst_size - 1) (length (c_str path1) + 1 + length (c_str path2))"
    unfolding b by (simp add: replace_dotdot_length)
  have d: "prefix (c_str path1 @ ''/'') r"
    if nd: "\<not> sublist ''..'' (c_str path1)" and fit: "length (c_str path1) + 1 < dst_size"
  proof -
    from fit have "?raw = c_str path1 @ CHR ''/'' # take (dst_size - 1 - length (c_str path1) - 1) (c_str path2)"
      by (simp add: take_Cons')
    then have "r = c_str path1 @ CHR ''/'' #
                 replace_dotdot (take (dst_size - 1 - length (c_str path1) - 1) (c_str path2))"
      using b replace_dotdot_keeps_prefix[OF nd] by simp
    then show ?thesis by (simp add: prefix_def)
  qed
  from a b c d show ?thesis by blast
qed

theorem build_filepath_no_dotdot_witness:
  "build_filepath 256 ''/sdcard'' (Some ''../../etc/passwd'') = Some ''/sdcard/__/__/etc/passwd''
   \<and> \<not> sublist ''..'' ''/sdcard/__/__/etc/passwd''
   \<and> prefix ''/sdcard/'' ''/sdcard/__/__/etc/passwd''"
proof -
  have h: "build_filepath 256 ''/sdcard'' (Some ''../../etc/passwd'') = Some ''/sdcard/__/__/etc/passwd''"
    by code_simp
  note t = build_filepath_no_dotdot[OF h]
  from t have 1: "\<not> sublist ''..'' ''/sdcard/__/__/etc/passwd''" by (rule conjunct1)
  have c: "c_str ''/sdcard'' = ''/sdcard''" by code_simp
  have pre: "\<not> sublist ''..'' (c_str ''/sdcard'') \<and> length (c_str ''/sdcard'') + 1 < (256::nat)"
    by code_simp
  from t pre have "prefix (c_str ''/sdcard'' @ ''/'') ''/sdcard/__/__/etc/passwd''" by blast
  then have 2: "prefix ''/sdcard/'' ''/sdcard/__/__/etc/passwd''" unfolding c by simp
  from h 1 2 show ?thesis by blast
qed

section \<open>The file listing: URL encoding of a name\<close>

text \<open>
  The per-row encoder of \<^verbatim>\<open>list_get_handler\<close>. \<open>encode_char\<close> is the chain of
  comparisons in the loop body; \<open>url_encode_loop\<close> is the \<^verbatim>\<open>while\<close> loop, which
  stops at the end of the name or when the output has reached
  \<^verbatim>\<open>sizeof(url_encoded_filename) - 4\<close>. The size of \<^verbatim>\<open>entry->d_name\<close> comes from
  the system's \<^verbatim>\<open>dirent.h\<close> and is a parameter.
\<close>

definition encode_char :: "char \<Rightarrow> string" where
  "encode_char c =
     (if c = CHR '' '' then ''%20''
      else if c = CHR ''('' then ''%28''
      else if c = CHR '')'' then ''%29''
      else if c = CHR ''&'' then ''%26''
      else if c = CHR ''='' then ''%3D''
      else if c = CHR ''?'' then ''%3F''
      else if c = CHR ''/'' then ''%2F''
      else [c])"

fun url_encode_loop :: "nat \<Rightarrow> string \<Rightarrow> string \<Rightarrow> string" where
  "url_encode_loop lim [] out = out"
| "url_encode_loop lim (c # cs) out =
     (if length out < lim then url_encode_loop lim cs (out @ encode_char c) else out)"

definition url_encode_filename :: "nat \<Rightarrow> string \<Rightarrow> string" where
  "url_encode_filename d_name_size d_name =
     (let size = d_name_size * 3 + 1;
          out = url_encode_loop (size - 4) (c_str d_name) []
      in if length out \<ge> size then take (size - 1) out else out)"

text \<open>
  The encoding the specification describes: each character of the reserved set becomes
  a percent sign and the two hexadecimal digits of its code; every other character is
  copied.
\<close>

definition reserved_chars :: "char set" where
  "reserved_chars = {CHR '' '', CHR ''('', CHR '')'', CHR ''&'', CHR ''='', CHR ''?'', CHR ''/''}"

definition hex_digit :: "nat \<Rightarrow> char" where
  "hex_digit n = ''0123456789ABCDEF'' ! n"

definition percent_escape :: "char \<Rightarrow> string" where
  "percent_escape c = [CHR ''%'', hex_digit (of_char c div 16), hex_digit (of_char c mod 16)]"

definition percent_encode :: "string \<Rightarrow> string" where
  "percent_encode s = concat (map (\<lambda>c. if c \<in> reserved_chars then percent_escape c else [c]) s)"


lemma encode_char_escape:
  "encode_char c = (if c \<in> reserved_chars then percent_escape c else [c])"
  by (simp add: encode_char_def reserved_chars_def percent_escape_def hex_digit_def)

lemma encode_char_length: "length (encode_char c) \<le> 3"
  by (simp add: encode_char_def)

lemma url_encode_loop_complete:
  "length out + 3 * length cs \<le> lim + 2 \<Longrightarrow>
   url_encode_loop lim cs out = out @ percent_encode cs"
proof (induction cs arbitrary: out)
  case Nil
  then show ?case by (simp add: percent_encode_def)
next
  case (Cons c cs)
  from Cons.prems have lt: "length out < lim" by simp
  from Cons.prems encode_char_length[of c]
  have "length (out @ encode_char c) + 3 * length cs \<le> lim + 2" by simp
  from Cons.IH[OF this] lt show ?case
    by (simp add: percent_encode_def encode_char_escape)
qed

lemma percent_encode_length: "length (percent_encode s) \<le> 3 * length s"
  by (induction s) (auto simp: percent_encode_def percent_escape_def)

text \<open>
  C9. For every filename of a directory entry (a C string that fits \<open>d_name\<close>), the
  encoder percent-encodes exactly the characters space, \<open>(\<close>, \<open>)\<close>, \<open>&\<close>, \<open>=\<close>,
  \<open>?\<close> and \<open>/\<close>, each as its two-digit hexadecimal escape, and copies every other
  character unchanged; the output buffer never cuts the name short.
\<close>

theorem url_encode_filename_reserved:
  assumes "length (c_str d_name) < d_name_size"
  shows "url_encode_filename d_name_size d_name = percent_encode (c_str d_name)"
proof -
  let ?n = "c_str d_name"
  from assms have "length ([]::string) + 3 * length ?n \<le> (d_name_size * 3 + 1 - 4) + 2" by simp
  from url_encode_loop_complete[OF this]
  have loop: "url_encode_loop (d_name_size * 3 + 1 - 4) ?n [] = percent_encode ?n" by simp
  from percent_encode_length[of ?n] assms
  have "length (percent_encode ?n) < d_name_size * 3 + 1" by simp
  with loop show ?thesis by (simp add: url_encode_filename_def Let_def)
qed


theorem url_encode_filename_reserved_witness:
  "length (c_str ''a b(1)&x=y?/z%.csv'') < (256::nat)
   \<and> url_encode_filename 256 ''a b(1)&x=y?/z%.csv'' = ''a%20b%281%29%26x%3Dy%3F%2Fz%.csv''"
proof -
  have h: "length (c_str ''a b(1)&x=y?/z%.csv'') < (256::nat)" by code_simp
  have e: "percent_encode (c_str ''a b(1)&x=y?/z%.csv'') = ''a%20b%281%29%26x%3Dy%3F%2Fz%.csv''"
    by code_simp
  from url_encode_filename_reserved[OF h] e h show ?thesis by simp
qed

section \<open>Chunked responses and the message template\<close>

text \<open>
  A response is the list of chunks handed to \<^verbatim>\<open>httpd_resp_send_chunk\<close> so far. The
  transport is an oracle \<open>send_ok\<close>: the call that would send chunk number \<open>i\<close>
  succeeds iff \<open>send_ok i\<close>; after a failed call every handler returns at once, so the
  number of chunks sent is the index of the call.

  \<^verbatim>\<open>send_message_response\<close> walks the embedded \<^verbatim>\<open>message.html\<close>, the bytes from
  \<^verbatim>\<open>message_html_start\<close> to \<^verbatim>\<open>message_html_end\<close>; \<open>after\<close> is the memory that follows the
  template, which \<^verbatim>\<open>strstr\<close> reads when the template holds no NUL. Pointers into
  the template are offsets from its start.
\<close>

datatype esp_err = ESP_OK | ESP_FAIL

definition httpd_resp_send_chunk ::
  "(nat \<Rightarrow> bool) \<Rightarrow> string list \<Rightarrow> string \<Rightarrow> esp_err \<times> string list" where
  "httpd_resp_send_chunk send_ok sent chunk =
     (if send_ok (length sent) then (ESP_OK, sent @ [chunk]) else (ESP_FAIL, sent))"

definition httpd_send_template_chunk ::
  "(nat \<Rightarrow> bool) \<Rightarrow> string list \<Rightarrow> string \<Rightarrow> esp_err \<times> string list" where
  "httpd_send_template_chunk send_ok sent chunk =
     (if length chunk > 0 then httpd_resp_send_chunk send_ok sent chunk else (ESP_OK, sent))"

fun send_placeholders ::
  "(nat \<Rightarrow> bool) \<Rightarrow> string \<Rightarrow> nat \<Rightarrow> (string \<times> string) list \<Rightarrow> nat \<Rightarrow> string list
     \<Rightarrow> esp_err \<times> nat \<times> string list" where
  "send_placeholders send_ok mem tend [] ptr sent = (ESP_OK, ptr, sent)"
| "send_placeholders send_ok mem tend ((ph, v) # rest) ptr sent =
     (case strstr (c_str (drop ptr mem)) ph of
        None \<Rightarrow> send_placeholders send_ok mem tend rest ptr sent
      | Some k \<Rightarrow>
          if ptr + k < tend then
            (case httpd_send_template_chunk send_ok sent (take k (drop ptr mem)) of
               (ESP_FAIL, s1) \<Rightarrow> (ESP_FAIL, ptr, s1)
             | (ESP_OK, s1) \<Rightarrow>
                 (case httpd_send_template_chunk send_ok s1 v of
                    (ESP_FAIL, s2) \<Rightarrow> (ESP_FAIL, ptr, s2)
                  | (ESP_OK, s2) \<Rightarrow>
                      send_placeholders send_ok mem tend rest (ptr + k + length ph) s2))
          else send_placeholders send_ok mem tend rest ptr sent)"

text \<open>
  The code after the placeholder loop: the rest of the template, then the empty chunk
  that ends the response. \<^verbatim>\<open>list_get_handler\<close> repeats the same code for its one
  placeholder, so both handlers share \<open>send_template\<close>; a token's value is the byte
  range handed to \<^verbatim>\<open>httpd_send_template_chunk\<close>.
\<close>

definition send_template ::
  "(nat \<Rightarrow> bool) \<Rightarrow> string \<Rightarrow> string \<Rightarrow> (string \<times> string) list
     \<Rightarrow> esp_err \<times> string list" where
  "send_template send_ok doc after toks =
     (let mem = doc @ after; tend = length doc in
      case send_placeholders send_ok mem tend toks 0 [] of
        (ESP_FAIL, ptr, s) \<Rightarrow> (ESP_FAIL, s)
      | (ESP_OK, ptr, s) \<Rightarrow>
          (case (if ptr < tend
                 then httpd_send_template_chunk send_ok s (take (tend - ptr) (drop ptr mem))
                 else (ESP_OK, s)) of
             (ESP_FAIL, s1) \<Rightarrow> (ESP_FAIL, s1)
           | (ESP_OK, s1) \<Rightarrow>
               (case httpd_resp_send_chunk send_ok s1 [] of
                  (ESP_FAIL, s2) \<Rightarrow> (ESP_FAIL, s2)
                | (ESP_OK, s2) \<Rightarrow> (ESP_OK, s2))))"

definition send_message_response ::
  "(nat \<Rightarrow> bool) \<Rightarrow> string \<Rightarrow> string \<Rightarrow> string \<Rightarrow> string \<Rightarrow> string
     \<Rightarrow> esp_err \<times> string list" where
  "send_message_response send_ok message_html after title message_class message_text =
     send_template send_ok message_html after
       [(''%%MESSAGE_TITLE%%'', c_str title), (''%%MESSAGE_CLASS%%'', c_str message_class),
        (''%%MESSAGE_TEXT%%'', c_str message_text)]"

text \<open>
  The rendering the specification describes: the tokens in order, each looked for in
  the part of the document that is not yet emitted and replaced at its first occurrence
  there; a token that does not occur is skipped.
\<close>

fun substitute_tokens :: "(string \<times> string) list \<Rightarrow> string \<Rightarrow> string" where
  "substitute_tokens [] doc = doc"
| "substitute_tokens ((tok, v) # rest) doc =
     (case strstr doc tok of
        None \<Rightarrow> substitute_tokens rest doc
      | Some k \<Rightarrow> take k doc @ v @ substitute_tokens rest (drop (k + length tok) doc))"

text \<open>
  An embedded text file: the C string that starts at the template ends where the
  template ends, its terminating NUL being the template's last byte or the byte after it.
\<close>

definition nul_terminated_text :: "string \<Rightarrow> string \<Rightarrow> bool" where
  "nul_terminated_text doc after =
     (doc = c_str (doc @ after) \<or> doc = c_str (doc @ after) @ [NUL])"

lemma c_str_drop: "n \<le> length (c_str s) \<Longrightarrow> c_str (drop n s) = drop n (c_str s)"
proof (induction s arbitrary: n)
  case Nil
  then show ?case by (simp add: c_str_def)
next
  case (Cons a s)
  show ?case
  proof (cases n)
    case 0
    then show ?thesis by simp
  next
    case (Suc m)
    with Cons.prems have a: "a \<noteq> NUL" by (auto simp: c_str_def split: if_splits)
    with Cons.prems Suc have "m \<le> length (c_str s)" by (simp add: c_str_def)
    from Cons.IH[OF this] a Suc show ?thesis by (simp add: c_str_def)
  qed
qed


lemma strstr_snoc_NUL:
  "NUL \<notin> set n \<Longrightarrow> n \<noteq> [] \<Longrightarrow> strstr (s @ [NUL]) n = strstr s n"
proof (induction s)
  case Nil
  then have "\<not> prefix n [NUL]" by (cases n) auto
  with Nil show ?case by (simp add: strstr_Cons_noprefix)
next
  case (Cons c cs)
  from Cons.prems have "prefix n (c # cs @ [NUL]) \<longleftrightarrow> prefix n (c # cs)"
    using prefix_snoc[of n "c # cs" NUL] by auto
  with Cons show ?case
    by (cases "prefix n (c # cs)") (simp_all add: strstr_Cons_prefix strstr_Cons_noprefix)
qed

lemma send_template_chunk_ok:
  "\<forall>i. send_ok i \<Longrightarrow>
   httpd_send_template_chunk send_ok sent c = (ESP_OK, if c = [] then sent else sent @ [c])"
  by (simp add: httpd_send_template_chunk_def httpd_resp_send_chunk_def)

lemma send_placeholders_ok:
  assumes ok: "\<forall>i. send_ok i"
      and body: "c_str mem = body"
      and doc: "doc = body \<or> doc = body @ [NUL]"
      and mem: "prefix doc mem"
      and toks: "\<forall>(ph, v) \<in> set toks. ph \<noteq> [] \<and> NUL \<notin> set ph"
      and ptr: "ptr \<le> length body"
      and sent: "[] \<notin> set sent"
  shows "\<exists>ptr' sent'.
           send_placeholders send_ok mem (length doc) toks ptr sent = (ESP_OK, ptr', sent')
         \<and> ptr' \<le> length body \<and> [] \<notin> set sent'
         \<and> concat sent' @ drop ptr' doc
             = concat sent @ substitute_tokens toks (drop ptr doc)"
  using toks ptr sent
proof (induction toks arbitrary: ptr sent)
  case Nil
  then show ?case by simp
next
  case (Cons t toks)
  obtain ph v where t: "t = (ph, v)" by (cases t)
  from Cons.prems(1) t have ph: "ph \<noteq> []" "NUL \<notin> set ph" by auto
  from Cons.prems(1) have rest: "\<forall>(ph, v) \<in> set toks. ph \<noteq> [] \<and> NUL \<notin> set ph" by simp
  have cs: "c_str (drop ptr mem) = drop ptr body"
    using c_str_drop[of ptr mem] Cons.prems(2) body by simp
  have search: "strstr (drop ptr doc) ph = strstr (drop ptr body) ph"
    using doc
  proof
    assume "doc = body" then show ?thesis by simp
  next
    assume "doc = body @ [NUL]"
    then have "drop ptr doc = drop ptr body @ [NUL]" using Cons.prems(2) by simp
    then show ?thesis using ph by (simp add: strstr_snoc_NUL)
  qed
  have blen: "length body \<le> length doc" using doc by auto
  obtain after where after: "mem = doc @ after" using mem by (auto simp: prefix_def)
  show ?case
  proof (cases "strstr (drop ptr body) ph")
    case None
    from Cons.IH[OF rest Cons.prems(2) Cons.prems(3)] None cs search t
    show ?thesis by simp
  next
    case (Some k)
    from strstr_SomeD[OF Some] have kb: "k + length ph \<le> length body - ptr" by simp
    from ph(1) have "0 < length ph" by simp
    with kb blen have lt: "ptr + k < length doc" by linarith
    from kb Cons.prems(2) have p2: "ptr + k + length ph \<le> length body" by simp
    have pre: "take k (drop ptr mem) = take k (drop ptr doc)"
      using lt after by simp
    let ?c1 = "take k (drop ptr doc)"
    let ?s1 = "if ?c1 = [] then sent else sent @ [?c1]"
    let ?s2 = "if v = [] then ?s1 else ?s1 @ [v]"
    have s2: "[] \<notin> set ?s2" using Cons.prems(3) by auto
    from Cons.IH[OF rest p2 s2] obtain ptr' sent' where
      r: "send_placeholders send_ok mem (length doc) toks (ptr + k + length ph) ?s2
            = (ESP_OK, ptr', sent')"
         "ptr' \<le> length body" "[] \<notin> set sent'"
         "concat sent' @ drop ptr' doc
            = concat ?s2 @ substitute_tokens toks
                             (drop (ptr + k + length ph) doc)"
      by blast
    have run: "send_placeholders send_ok mem (length doc) (t # toks) ptr sent
               = (ESP_OK, ptr', sent')"
      by (simp only: t send_placeholders.simps cs Some option.case lt if_True pre
            send_template_chunk_ok[OF ok] prod.case esp_err.case r(1))
    have c2: "concat ?s2 = concat sent @ ?c1 @ v" by simp
    have "substitute_tokens (t # toks) (drop ptr doc)
          = ?c1 @ v @ substitute_tokens toks
                             (drop (ptr + k + length ph) doc)"
      using Some search t by (simp add: add.commute add.left_commute)
    with r(4) c2
    have "concat sent' @ drop ptr' doc
          = concat sent @ substitute_tokens (t # toks) (drop ptr doc)"
      by simp
    with run r(2,3) show ?thesis by blast
  qed
qed


lemma substitute_tokens_absent:
  "\<forall>(tok, v) \<in> set toks. \<not> sublist tok doc \<Longrightarrow> substitute_tokens toks doc = doc"
  by (induction toks) (auto simp: strstr_None_iff[symmetric])

lemma send_template_ok:
  assumes ok: "\<forall>i. send_ok i"
      and nt: "nul_terminated_text doc after"
      and tk: "\<forall>(ph, v) \<in> set toks. ph \<noteq> [] \<and> NUL \<notin> set ph"
  shows "\<exists>chunks.
           send_template send_ok doc after toks = (ESP_OK, chunks @ [[]])
         \<and> [] \<notin> set chunks
         \<and> concat chunks = substitute_tokens toks doc"
proof -
  let ?mem = "doc @ after"
  define body where "body = c_str ?mem"
  have b: "c_str ?mem = body" by (simp add: body_def)
  from nt have doc: "doc = body \<or> doc = body @ [NUL]"
    by (simp add: nul_terminated_text_def body_def)
  have pm: "prefix doc ?mem" by simp
  have e: "[] \<notin> set ([]::string list)" by simp
  from send_placeholders_ok[OF ok b doc pm tk _ e, of 0]
  obtain ptr sent where
    r: "send_placeholders send_ok ?mem (length doc) toks 0 [] = (ESP_OK, ptr, sent)"
       "ptr \<le> length body" "[] \<notin> set sent"
       "concat sent @ drop ptr doc = substitute_tokens toks doc"
    by auto
  from doc have blen: "length body \<le> length doc" by auto
  let ?tail = "drop ptr doc"
  let ?chunks = "if ?tail = [] then sent else sent @ [?tail]"
  have tl: "take (length doc - ptr) (drop ptr ?mem) = ?tail"
    using r(2) blen by simp
  have fin: "(if ptr < length doc
              then httpd_send_template_chunk send_ok sent (take (length doc - ptr) (drop ptr ?mem))
              else (ESP_OK, sent)) = (ESP_OK, ?chunks)"
    using r(2) blen by (simp add: tl send_template_chunk_ok[OF ok])
  have last: "httpd_resp_send_chunk send_ok ?chunks [] = (ESP_OK, ?chunks @ [[]])"
    using ok by (simp add: httpd_resp_send_chunk_def)
  have run: "send_template send_ok doc after toks = (ESP_OK, ?chunks @ [[]])"
    unfolding send_template_def Let_def
    by (simp only: r(1) fin last prod.case esp_err.case)
  have ne: "[] \<notin> set ?chunks" using r(3) by simp
  have "concat ?chunks = concat sent @ ?tail" by simp
  with r(4) have cc: "concat ?chunks = substitute_tokens toks doc" by (simp only:)
  from run ne cc show ?thesis by blast
qed

text \<open>
  C4. When every chunk emission succeeds, \<open>send_message_response\<close> returns \<open>ESP_OK\<close>
  and the chunks it emitted, concatenated, are the template with the tokens
  \<^verbatim>\<open>%%MESSAGE_TITLE%%\<close>, \<^verbatim>\<open>%%MESSAGE_CLASS%%\<close>, \<^verbatim>\<open>%%MESSAGE_TEXT%%\<close>, taken in that
  order and searched only in the not yet emitted rest, replaced at their first occurrence
  by their values; a token without an occurrence there is skipped, a later occurrence
  stays as it is, a template with none of the tokens is emitted unchanged, and the last
  chunk, and only the last, is the empty one.
\<close>

theorem send_message_response_substitutes:
  assumes ok: "\<forall>i. send_ok i"
      and nt: "nul_terminated_text message_html after"
  shows "\<exists>chunks.
           send_message_response send_ok message_html after title message_class message_text
             = (ESP_OK, chunks @ [[]])
         \<and> [] \<notin> set chunks
         \<and> concat chunks
             = substitute_tokens [(''%%MESSAGE_TITLE%%'', c_str title),
                                  (''%%MESSAGE_CLASS%%'', c_str message_class),
                                  (''%%MESSAGE_TEXT%%'', c_str message_text)] message_html
         \<and> (\<not> sublist ''%%MESSAGE_TITLE%%'' message_html
              \<and> \<not> sublist ''%%MESSAGE_CLASS%%'' message_html
              \<and> \<not> sublist ''%%MESSAGE_TEXT%%'' message_html
              \<longrightarrow> concat chunks = message_html)"
proof -
  let ?vals = "[(''%%MESSAGE_TITLE%%'', c_str title), (''%%MESSAGE_CLASS%%'', c_str message_class),
                (''%%MESSAGE_TEXT%%'', c_str message_text)]"
  have tk: "\<forall>(ph, v) \<in> set ?vals. ph \<noteq> [] \<and> NUL \<notin> set ph"
    by (simp add: NUL_def)
  from send_template_ok[OF ok nt tk] obtain chunks where
    r: "send_template send_ok message_html after ?vals = (ESP_OK, chunks @ [[]])"
       "[] \<notin> set chunks" "concat chunks = substitute_tokens ?vals message_html"
    by blast
  from r(1) have run: "send_message_response send_ok message_html after title message_class
                         message_text = (ESP_OK, chunks @ [[]])"
    by (simp only: send_message_response_def)
  have ab: "concat chunks = message_html"
    if "\<not> sublist ''%%MESSAGE_TITLE%%'' message_html
        \<and> \<not> sublist ''%%MESSAGE_CLASS%%'' message_html
        \<and> \<not> sublist ''%%MESSAGE_TEXT%%'' message_html"
  proof -
    from that have "\<forall>(tok, v) \<in> set ?vals. \<not> sublist tok message_html" by simp
    from substitute_tokens_absent[OF this] r(3) show ?thesis by (simp only:)
  qed
  from run r(2,3) ab show ?thesis by blast
qed

theorem send_message_response_substitutes_witness:
  "(\<forall>i::nat. (\<lambda>i. True) i)
   \<and> nul_terminated_text
        (''<h1>%%MESSAGE_TITLE%%</h1><p class=%%MESSAGE_CLASS%%>%%MESSAGE_TEXT%% %%MESSAGE_TITLE%%</p>'' @ [NUL]) []
   \<and> (\<exists>chunks.
        send_message_response (\<lambda>i. True)
          (''<h1>%%MESSAGE_TITLE%%</h1><p class=%%MESSAGE_CLASS%%>%%MESSAGE_TEXT%% %%MESSAGE_TITLE%%</p>'' @ [NUL]) []
          ''Hi'' ''ok'' ''done'' = (ESP_OK, chunks @ [[]])
        \<and> concat chunks = ''<h1>Hi</h1><p class=ok>done %%MESSAGE_TITLE%%</p>'' @ [NUL])"
proof -
  let ?doc = "''<h1>%%MESSAGE_TITLE%%</h1><p class=%%MESSAGE_CLASS%%>%%MESSAGE_TEXT%% %%MESSAGE_TITLE%%</p>'' @ [NUL]"
  have a: "\<forall>i::nat. (\<lambda>i. True) i" by simp
  have n: "nul_terminated_text ?doc []" by code_simp
  have s: "substitute_tokens [(''%%MESSAGE_TITLE%%'', c_str ''Hi''),
                              (''%%MESSAGE_CLASS%%'', c_str ''ok''),
                              (''%%MESSAGE_TEXT%%'', c_str ''done'')] ?doc
           = ''<h1>Hi</h1><p class=ok>done %%MESSAGE_TITLE%%</p>'' @ [NUL]"
    by code_simp
  from send_message_response_substitutes[OF a n, of "''Hi''" "''ok''" "''done''"] s
  have "\<exists>chunks.
        send_message_response (\<lambda>i. True) ?doc [] ''Hi'' ''ok'' ''done'' = (ESP_OK, chunks @ [[]])
        \<and> concat chunks = ''<h1>Hi</h1><p class=ok>done %%MESSAGE_TITLE%%</p>'' @ [NUL]"
    by metis
  with a n show ?thesis by blast
qed

section \<open>The file listing: the row buffer\<close>

text \<open>
  \<^verbatim>\<open>list_get_handler\<close> reads the directory entry by entry and formats one table row
  per regular file into a heap buffer. \<open>list_buf\<close> is the buffer with its variables of
  the source; \<open>allocs\<close> counts the calls of \<^verbatim>\<open>malloc\<close> and \<^verbatim>\<open>realloc\<close> made so
  far, and call number \<open>i\<close> succeeds iff \<open>alloc_ok i\<close>. \<open>list_append_entry\<close> is the
  loop body for a regular file (\<open>None\<close> is the \<^verbatim>\<open>break\<close> after a failed
  \<^verbatim>\<open>realloc\<close>), \<open>list_rows\<close> the \<^verbatim>\<open>readdir\<close> loop; its flag tells whether the
  loop was left by \<^verbatim>\<open>break\<close>. \<^verbatim>\<open>snprintf\<close> into the rest of the buffer keeps at
  most \<open>avail - 1\<close> characters of the row and returns the row's full length.
\<close>

datatype file_type = DT_UNKNOWN | DT_REG | DT_DIR

record dirent =
  d_name :: string
  d_type :: file_type

record list_buf =
  file_list_html :: string
  file_list_len :: nat
  file_list_buffer_size :: nat
  allocs :: nat

definition entry_html_len_estimate :: "string \<Rightarrow> nat" where
  "entry_html_len_estimate name = (length name * 2 + 1) + length name * 2 + 350"

definition file_row :: "string \<Rightarrow> string \<Rightarrow> string \<Rightarrow> string" where
  "file_row name download_url delete_url =
     ''<tr><td>'' @ name @ ''</td><td><a href='' @ [CHR 0x22] @ download_url @ [CHR 0x22]
     @ ''>Preuzmi</a></td><td><a href='' @ [CHR 0x22] @ delete_url @ [CHR 0x22]
     @ '' class='' @ [CHR 0x22] @ ''delete-link'' @ [CHR 0x22]
     @ ''>Obri'' @ [CHR 0xC5, CHR 0xA1] @ ''i</a></td></tr>''"

definition entry_row :: "nat \<Rightarrow> dirent \<Rightarrow> string" where
  "entry_row d_name_size e =
     (let enc = url_encode_filename d_name_size (d_name e);
          download_url = take 511 (''/download?file='' @ enc);
          delete_url = take 511 (''/delete?file='' @ enc)
      in file_row (c_str (d_name e)) download_url delete_url)"

definition list_append_entry ::
  "nat \<Rightarrow> (nat \<Rightarrow> bool) \<Rightarrow> list_buf \<Rightarrow> dirent \<Rightarrow> list_buf option" where
  "list_append_entry d_name_size alloc_ok b e =
     (let name = c_str (d_name e);
          est = entry_html_len_estimate name;
          grown =
            (if file_list_len b + est \<ge> file_list_buffer_size b
             then (if alloc_ok (allocs b)
                   then Some (b\<lparr>file_list_buffer_size := file_list_buffer_size b + est + 1024,
                                allocs := allocs b + 1\<rparr>)
                   else None)
             else Some b)
      in case grown of
           None \<Rightarrow> None
         | Some b1 \<Rightarrow>
             (let row = entry_row d_name_size e;
                  avail = file_list_buffer_size b1 - file_list_len b1;
                  written_len = length row
              in Some (b1\<lparr>file_list_html :=
                             take (file_list_len b1) (file_list_html b1) @ take (avail - 1) row,
                           file_list_len :=
                             (if written_len > 0 \<and> written_len < avail
                              then file_list_len b1 + written_len
                              else if written_len > 0 then file_list_buffer_size b1 - 1
                              else file_list_len b1)\<rparr>)))"

fun list_rows ::
  "nat \<Rightarrow> (nat \<Rightarrow> bool) \<Rightarrow> dirent list \<Rightarrow> list_buf \<Rightarrow> list_buf \<times> bool" where
  "list_rows d_name_size alloc_ok [] b = (b, False)"
| "list_rows d_name_size alloc_ok (e # es) b =
     (if d_type e = DT_REG
      then (case list_append_entry d_name_size alloc_ok b e of
              None \<Rightarrow> (b, True)
            | Some b' \<Rightarrow> list_rows d_name_size alloc_ok es b')
      else list_rows d_name_size alloc_ok es b)"

definition list_buf_init :: list_buf where
  "list_buf_init =
     \<lparr>file_list_html = [], file_list_len = 0, file_list_buffer_size = 2048, allocs = 1\<rparr>"

definition list_get_handler ::
  "nat \<Rightarrow> (nat \<Rightarrow> bool) \<Rightarrow> (nat \<Rightarrow> bool) \<Rightarrow> dirent list option
     \<Rightarrow> string \<Rightarrow> string \<Rightarrow> string \<Rightarrow> string \<Rightarrow> esp_err \<times> string list" where
  "list_get_handler d_name_size alloc_ok send_ok dir list_html list_after message_html message_after =
     (case dir of
        None \<Rightarrow>
          send_message_response send_ok message_html message_after
            ''Greska posluzitelja'' ''error'' ''Nije moguce otvoriti direktorij na SD kartici.''
      | Some entries \<Rightarrow>
          if \<not> alloc_ok 0
          then send_message_response send_ok message_html message_after
                 ''Greska posluzitelja'' ''error'' ''Interna greska (memorija).''
          else (case list_rows d_name_size alloc_ok entries list_buf_init of
                  (b, stopped) \<Rightarrow>
                    send_template send_ok list_html list_after
                      [(''%%FILE_LIST_ROWS%%'', take (file_list_len b) (file_list_html b))]))"

lemma list_rows_append:
  "list_rows d_name_size alloc_ok (xs @ ys) b =
     (case list_rows d_name_size alloc_ok xs b of
        (b', True) \<Rightarrow> (b', True)
      | (b', False) \<Rightarrow> list_rows d_name_size alloc_ok ys b')"
  by (induction xs arbitrary: b) (auto split: option.splits)

lemma list_append_entry_grows:
  assumes "file_list_len b + entry_html_len_estimate (c_str (d_name e)) \<ge> file_list_buffer_size b"
      and "alloc_ok (allocs b)"
  shows "\<exists>b'. list_append_entry d_name_size alloc_ok b e = Some b'
            \<and> file_list_buffer_size b'
                = file_list_buffer_size b + entry_html_len_estimate (c_str (d_name e)) + 1024"
  using assms by (simp add: list_append_entry_def Let_def)

lemma list_append_entry_fails:
  assumes "file_list_len b + entry_html_len_estimate (c_str (d_name e)) \<ge> file_list_buffer_size b"
      and "\<not> alloc_ok (allocs b)"
  shows "list_append_entry d_name_size alloc_ok b e = None"
  using assms by (simp add: list_append_entry_def Let_def)

text \<open>
  C8, as amended. When the row of a regular file would reach the capacity of the buffer
  (length so far plus the estimate for the entry, \<open>4 * strlen(name) + 351\<close>, is at least
  the capacity), the buffer is reallocated to its capacity plus that estimate plus 1024
  bytes. When that reallocation fails, the loop is left: the buffer keeps the rows
  accumulated so far whatever entries follow, and the page is still rendered and sent
  with those rows in place of \<^verbatim>\<open>%%FILE_LIST_ROWS%%\<close>.
\<close>

theorem list_buffer_growth:
  assumes pre: "list_rows d_name_size alloc_ok pre list_buf_init = (b, False)"
      and reg: "d_type e = DT_REG"
      and full: "file_list_len b + entry_html_len_estimate (c_str (d_name e))
                   \<ge> file_list_buffer_size b"
  shows "(alloc_ok (allocs b) \<longrightarrow>
            (\<exists>b'. list_append_entry d_name_size alloc_ok b e = Some b'
               \<and> file_list_buffer_size b'
                   = file_list_buffer_size b + entry_html_len_estimate (c_str (d_name e)) + 1024))
       \<and> (\<not> alloc_ok (allocs b) \<longrightarrow>
            list_rows d_name_size alloc_ok (pre @ e # es) list_buf_init = (b, True)
          \<and> (alloc_ok 0 \<and> (\<forall>i. send_ok i) \<and> nul_terminated_text list_html list_after \<longrightarrow>
               (\<exists>chunks.
                  list_get_handler d_name_size alloc_ok send_ok (Some (pre @ e # es))
                    list_html list_after message_html message_after = (ESP_OK, chunks @ [[]])
                \<and> concat chunks
                    = substitute_tokens
                        [(''%%FILE_LIST_ROWS%%'', take (file_list_len b) (file_list_html b))]
                        list_html)))"
proof (intro conjI impI)
  assume "alloc_ok (allocs b)"
  with full show "\<exists>b'. list_append_entry d_name_size alloc_ok b e = Some b'
               \<and> file_list_buffer_size b'
                   = file_list_buffer_size b + entry_html_len_estimate (c_str (d_name e)) + 1024"
    by (rule list_append_entry_grows)
next
  assume "\<not> alloc_ok (allocs b)"
  with full have "list_append_entry d_name_size alloc_ok b e = None"
    by (rule list_append_entry_fails)
  with reg have "list_rows d_name_size alloc_ok (e # es) b = (b, True)" by simp
  with pre show "list_rows d_name_size alloc_ok (pre @ e # es) list_buf_init = (b, True)"
    by (simp add: list_rows_append)
next
  assume na: "\<not> alloc_ok (allocs b)"
     and env: "alloc_ok 0 \<and> (\<forall>i. send_ok i) \<and> nul_terminated_text list_html list_after"
  from full na have "list_append_entry d_name_size alloc_ok b e = None"
    by (rule list_append_entry_fails)
  with reg have "list_rows d_name_size alloc_ok (e # es) b = (b, True)" by simp
  with pre have rows: "list_rows d_name_size alloc_ok (pre @ e # es) list_buf_init = (b, True)"
    by (simp add: list_rows_append)
  let ?toks = "[(''%%FILE_LIST_ROWS%%'', take (file_list_len b) (file_list_html b))]"
  have tk: "\<forall>(ph, v) \<in> set ?toks. ph \<noteq> [] \<and> NUL \<notin> set ph"
    by (simp add: NUL_def)
  from env have ok: "\<forall>i. send_ok i" and nt: "nul_terminated_text list_html list_after"
    by simp_all
  from send_template_ok[OF ok nt tk] obtain chunks where
    c: "send_template send_ok list_html list_after ?toks = (ESP_OK, chunks @ [[]])"
       "concat chunks = substitute_tokens ?toks list_html"
    by blast
  from env rows c(1)
  have "list_get_handler d_name_size alloc_ok send_ok (Some (pre @ e # es))
          list_html list_after message_html message_after = (ESP_OK, chunks @ [[]])"
    by (simp add: list_get_handler_def)
  with c(2) show "\<exists>chunks.
                  list_get_handler d_name_size alloc_ok send_ok (Some (pre @ e # es))
                    list_html list_after message_html message_after = (ESP_OK, chunks @ [[]])
                \<and> concat chunks
                    = substitute_tokens
                        [(''%%FILE_LIST_ROWS%%'', take (file_list_len b) (file_list_html b))]
                        list_html"
    by blast
qed



lemma list_append_entry_fits:
  assumes "file_list_len b + entry_html_len_estimate (c_str (d_name e)) < file_list_buffer_size b"
      and "0 < length (entry_row d_name_size e)"
      and "length (entry_row d_name_size e) < file_list_buffer_size b - file_list_len b"
  shows "\<exists>b'. list_append_entry d_name_size alloc_ok b e = Some b'
            \<and> file_list_len b' = file_list_len b + length (entry_row d_name_size e)
            \<and> file_list_buffer_size b' = file_list_buffer_size b
            \<and> allocs b' = allocs b"
  using assms by (simp add: list_append_entry_def Let_def)

lemma list_rows_fit:
  assumes "\<forall>e \<in> set es. d_type e = DT_REG
              \<and> entry_html_len_estimate (c_str (d_name e)) = est
              \<and> length (entry_row d_name_size e) = r"
      and "0 < r" and "r \<le> est"
      and "file_list_len b + r * length es + est < file_list_buffer_size b + r"
  shows "\<exists>b'. list_rows d_name_size alloc_ok es b = (b', False)
            \<and> file_list_len b' = file_list_len b + r * length es
            \<and> file_list_buffer_size b' = file_list_buffer_size b
            \<and> allocs b' = allocs b"
  using assms
proof (induction es arbitrary: b)
  case Nil
  then show ?case by simp
next
  case (Cons e es)
  from Cons.prems(1) have e: "d_type e = DT_REG"
      "entry_html_len_estimate (c_str (d_name e)) = est" "length (entry_row d_name_size e) = r"
    by simp_all
  from Cons.prems(1) have rest: "\<forall>e \<in> set es. d_type e = DT_REG
              \<and> entry_html_len_estimate (c_str (d_name e)) = est
              \<and> length (entry_row d_name_size e) = r" by simp
  from Cons.prems(4) have room: "file_list_len b + est < file_list_buffer_size b"
    by simp
  with Cons.prems(3) have fit: "r < file_list_buffer_size b - file_list_len b" by simp
  from list_append_entry_fits[of b e d_name_size alloc_ok] room fit Cons.prems(2) e
  obtain b1 where b1: "list_append_entry d_name_size alloc_ok b e = Some b1"
      "file_list_len b1 = file_list_len b + r"
      "file_list_buffer_size b1 = file_list_buffer_size b" "allocs b1 = allocs b"
    by auto
  from Cons.prems(4) b1 have
    "file_list_len b1 + r * length es + est < file_list_buffer_size b1 + r" by simp
  from Cons.IH[OF rest Cons.prems(2) Cons.prems(3) this] obtain b' where
    "list_rows d_name_size alloc_ok es b1 = (b', False)"
    "file_list_len b' = file_list_len b1 + r * length es"
    "file_list_buffer_size b' = file_list_buffer_size b1" "allocs b' = allocs b1"
    by blast
  with b1 e(1) show ?case by simp
qed

lemma entry_row_a: "length (entry_row 256 \<lparr>d_name = ''a'', d_type = DT_REG\<rparr>) = 131"
  by code_simp

lemma estimate_a: "entry_html_len_estimate (c_str ''a'') = 355"
  by code_simp


lemma list_rows_thirteen:
  "\<exists>b. list_rows 256 alloc_ok (replicate 13 \<lparr>d_name = ''a'', d_type = DT_REG\<rparr>) list_buf_init
          = (b, False)
       \<and> file_list_len b = 1703 \<and> file_list_buffer_size b = 2048 \<and> allocs b = 1"
proof -
  let ?es = "replicate 13 \<lparr>d_name = ''a'', d_type = DT_REG\<rparr>"
  have a: "\<forall>e \<in> set ?es. d_type e = DT_REG
              \<and> entry_html_len_estimate (c_str (d_name e)) = 355
              \<and> length (entry_row 256 e) = 131"
    using entry_row_a estimate_a by simp
  have b: "file_list_len list_buf_init + 131 * length ?es + 355
             < file_list_buffer_size list_buf_init + 131"
    by (simp add: list_buf_init_def)
  from list_rows_fit[OF a _ _ b, of alloc_ok] show ?thesis
    by (simp add: list_buf_init_def)
qed

text \<open>
  The growth is not \<open>max (needed, 1024)\<close>: with fourteen files named \<open>a\<close> the
  fourteenth row triggers the reallocation, and the buffer grows by 355 + 1024 = 1379
  bytes.
\<close>

theorem list_buffer_growth_counterexample:
  "file_list_buffer_size
     (fst (list_rows 256 (\<lambda>i. True)
             (replicate 13 \<lparr>d_name = ''a'', d_type = DT_REG\<rparr>
              @ [\<lparr>d_name = ''a'', d_type = DT_REG\<rparr>]) list_buf_init))
     = 2048 + 1379
   \<and> entry_html_len_estimate (c_str ''a'') = 355
   \<and> (1379::nat) \<noteq> max 355 1024"
proof -
  let ?e = "\<lparr>d_name = ''a'', d_type = DT_REG\<rparr>"
  from list_rows_thirteen[of "\<lambda>i. True"] obtain b where
    b: "list_rows 256 (\<lambda>i. True) (replicate 13 ?e) list_buf_init = (b, False)"
       "file_list_len b = 1703" "file_list_buffer_size b = 2048"
    by blast
  have "file_list_len b + entry_html_len_estimate (c_str (d_name ?e)) \<ge> file_list_buffer_size b"
    using b estimate_a by simp
  from list_append_entry_grows[OF this, of "\<lambda>i. True" 256] obtain b' where
    b': "list_append_entry 256 (\<lambda>i. True) b ?e = Some b'"
        "file_list_buffer_size b' = file_list_buffer_size b + entry_html_len_estimate (c_str (d_name ?e)) + 1024"
    by auto
  from b' have "list_rows 256 (\<lambda>i. True) [?e] b = (b', False)" by simp
  with b(1) have "list_rows 256 (\<lambda>i. True) (replicate 13 ?e @ [?e]) list_buf_init = (b', False)"
    by (simp only: list_rows_append prod.case bool.case)
  moreover from b' b(3) estimate_a have "file_list_buffer_size b' = 2048 + 1379" by simp
  ultimately show ?thesis using estimate_a by simp
qed

theorem list_buffer_growth_witness:
  "(\<exists>b b'. list_rows 256 (\<lambda>i. True) (replicate 13 \<lparr>d_name = ''a'', d_type = DT_REG\<rparr>)
              list_buf_init = (b, False)
          \<and> file_list_len b + entry_html_len_estimate (c_str ''a'') \<ge> file_list_buffer_size b
          \<and> list_append_entry 256 (\<lambda>i. True) b \<lparr>d_name = ''a'', d_type = DT_REG\<rparr> = Some b'
          \<and> file_list_buffer_size b' = 3427)
   \<and> (\<exists>b chunks.
          list_rows 256 (\<lambda>i. i < 1) (replicate 13 \<lparr>d_name = ''a'', d_type = DT_REG\<rparr>)
              list_buf_init = (b, False)
          \<and> file_list_len b + entry_html_len_estimate (c_str ''a'') \<ge> file_list_buffer_size b
          \<and> \<not> (allocs b < 1)
          \<and> nul_terminated_text ''<table>%%FILE_LIST_ROWS%%</table>'' []
          \<and> list_rows 256 (\<lambda>i. i < 1)
                (replicate 13 \<lparr>d_name = ''a'', d_type = DT_REG\<rparr>
                 @ \<lparr>d_name = ''a'', d_type = DT_REG\<rparr> # [\<lparr>d_name = ''b'', d_type = DT_REG\<rparr>])
                list_buf_init = (b, True)
          \<and> list_get_handler 256 (\<lambda>i. i < 1) (\<lambda>i. True)
                (Some (replicate 13 \<lparr>d_name = ''a'', d_type = DT_REG\<rparr>
                       @ \<lparr>d_name = ''a'', d_type = DT_REG\<rparr> # [\<lparr>d_name = ''b'', d_type = DT_REG\<rparr>]))
                ''<table>%%FILE_LIST_ROWS%%</table>'' [] [] [] = (ESP_OK, chunks @ [[]]))"
proof -
  let ?e = "\<lparr>d_name = ''a'', d_type = DT_REG\<rparr>"
  let ?f = "\<lparr>d_name = ''b'', d_type = DT_REG\<rparr>"
  have reg: "d_type ?e = DT_REG" by simp
  have nt: "nul_terminated_text ''<table>%%FILE_LIST_ROWS%%</table>'' []" by code_simp
  have first: "\<exists>b b'. list_rows 256 (\<lambda>i. True) (replicate 13 ?e) list_buf_init = (b, False)
          \<and> file_list_len b + entry_html_len_estimate (c_str ''a'') \<ge> file_list_buffer_size b
          \<and> list_append_entry 256 (\<lambda>i. True) b ?e = Some b'
          \<and> file_list_buffer_size b' = 3427"
  proof -
    from list_rows_thirteen[of "\<lambda>i. True"] obtain b where
      b: "list_rows 256 (\<lambda>i. True) (replicate 13 ?e) list_buf_init = (b, False)"
         "file_list_len b = 1703" "file_list_buffer_size b = 2048"
      by blast
    have full: "file_list_len b + entry_html_len_estimate (c_str (d_name ?e))
                  \<ge> file_list_buffer_size b"
      using b estimate_a by simp
    from list_buffer_growth[OF b(1) reg full] b(3) estimate_a
    obtain b' where "list_append_entry 256 (\<lambda>i. True) b ?e = Some b'"
        "file_list_buffer_size b' = 3427"
      by auto
    with b(1) full show ?thesis by auto
  qed
  have second: "\<exists>b chunks.
          list_rows 256 (\<lambda>i. i < 1) (replicate 13 ?e) list_buf_init = (b, False)
          \<and> file_list_len b + entry_html_len_estimate (c_str ''a'') \<ge> file_list_buffer_size b
          \<and> \<not> (allocs b < 1)
          \<and> nul_terminated_text ''<table>%%FILE_LIST_ROWS%%</table>'' []
          \<and> list_rows 256 (\<lambda>i. i < 1) (replicate 13 ?e @ ?e # [?f]) list_buf_init = (b, True)
          \<and> list_get_handler 256 (\<lambda>i. i < 1) (\<lambda>i. True) (Some (replicate 13 ?e @ ?e # [?f]))
                ''<table>%%FILE_LIST_ROWS%%</table>'' [] [] [] = (ESP_OK, chunks @ [[]])"
  proof -
    from list_rows_thirteen[of "\<lambda>i. i < 1"] obtain b where
      b: "list_rows 256 (\<lambda>i. i < 1) (replicate 13 ?e) list_buf_init = (b, False)"
         "file_list_len b = 1703" "file_list_buffer_size b = 2048" "allocs b = 1"
      by blast
    have full: "file_list_len b + entry_html_len_estimate (c_str (d_name ?e))
                  \<ge> file_list_buffer_size b"
      using b estimate_a by simp
    have na: "\<not> (allocs b < 1)" using b(4) by simp
    from list_buffer_growth[OF b(1) reg full, of "[?f]" "\<lambda>i. True"
           "''<table>%%FILE_LIST_ROWS%%</table>''" "[]" "[]" "[]"] na nt
    obtain chunks where
      "list_rows 256 (\<lambda>i. i < 1) (replicate 13 ?e @ ?e # [?f]) list_buf_init = (b, True)"
      "list_get_handler 256 (\<lambda>i. i < 1) (\<lambda>i. True) (Some (replicate 13 ?e @ ?e # [?f]))
         ''<table>%%FILE_LIST_ROWS%%</table>'' [] [] [] = (ESP_OK, chunks @ [[]])"
      by auto
    with b(1) full na nt show ?thesis by auto
  qed
  from first second show ?thesis by (rule conjI)
qed

section \<open>The upload handler\<close>

subsection \<open>Constants and library functions\<close>

definition UPLOAD_BUFFER_SIZE :: nat where
  "UPLOAD_BUFFER_SIZE = 2048"

definition FILE_PATH_MAX :: nat where
  "FILE_PATH_MAX = 256"

definition MOUNT_POINT :: string where
  "MOUNT_POINT = ''/sdcard''"

definition CR :: char where
  "CR = CHR 0x0D"

definition LF :: char where
  "LF = CHR 0x0A"

definition DQUOTE :: char where
  "DQUOTE = CHR 0x22"

definition CRLFCRLF :: string where
  "CRLFCRLF = [CR, LF, CR, LF]"

fun strchr :: "string \<Rightarrow> char \<Rightarrow> nat option" where
  "strchr [] c = None"
| "strchr (x # xs) c = (if x = c then Some 0 else map_option Suc (strchr xs c))"

definition ascii_tolower :: "char \<Rightarrow> char" where
  "ascii_tolower c =
     (let n = (of_char c :: nat) in if 65 \<le> n \<and> n \<le> 90 then char_of (n + 32) else c)"

definition strcasecmp_eq :: "string \<Rightarrow> string \<Rightarrow> bool" where
  "strcasecmp_eq a b = (map ascii_tolower (c_str a) = map ascii_tolower (c_str b))"

subsection \<open>The transport\<close>

text \<open>
  \<^verbatim>\<open>httpd_req_recv\<close> belongs to the HTTP server library. Its model: the socket will
  deliver the events \<open>pending\<close> in order, a piece of data or an error; a call asks
  for at most \<open>buf_len\<close> bytes and the library never hands out more than the bytes
  still declared by Content-Length (\<open>remaining_len\<close>). A call returns the number of
  bytes read, 0 when nothing is left to read or the peer has closed, or a negative error
  code; a piece longer than the request stays pending with its rest.
\<close>

datatype sock_err = HTTPD_SOCK_ERR_FAIL | HTTPD_SOCK_ERR_INVALID | HTTPD_SOCK_ERR_TIMEOUT

fun sock_err_code :: "sock_err \<Rightarrow> int" where
  "sock_err_code HTTPD_SOCK_ERR_FAIL = -1"
| "sock_err_code HTTPD_SOCK_ERR_INVALID = -2"
| "sock_err_code HTTPD_SOCK_ERR_TIMEOUT = -3"

datatype recv_event = Data string | SockErr sock_err

definition httpd_req_recv ::
  "recv_event list \<Rightarrow> nat \<Rightarrow> nat \<Rightarrow> int \<times> string \<times> recv_event list \<times> nat" where
  "httpd_req_recv pend rlen buf_len =
     (let n = min buf_len rlen in
      if n = 0 then (0, [], pend, rlen)
      else case pend of
             [] \<Rightarrow> (0, [], pend, rlen)
           | SockErr e # rest \<Rightarrow> (sock_err_code e, [], rest, rlen)
           | Data bs # rest \<Rightarrow>
               if length bs \<le> n then (int (length bs), bs, rest, rlen - length bs)
               else (int n, take n bs, Data (drop n bs) # rest, rlen - n))"

subsection \<open>Request, state and effects\<close>

text \<open>
  \<open>upload_env\<close> holds what the handler reads from the request and its environment:
  \<^verbatim>\<open>req->content_len\<close> (a 32-bit \<^verbatim>\<open>size_t\<close>, read into the \<^verbatim>\<open>int remaining\<close>), the
  Content-Type header when \<^verbatim>\<open>httpd_req_get_hdr_value_str\<close> returns it, the URL query
  and the library's \<^verbatim>\<open>httpd_query_key_value\<close> (\<open>Some\<close> the value when it returns
  \<^verbatim>\<open>ESP_OK\<close>), and the outcomes of the calls that can fail: \<^verbatim>\<open>malloc\<close> number
  \<open>i\<close> of the handler (0 the chunk buffer, 1 the filename, 2 the query buffer),
  \<^verbatim>\<open>fopen\<close> of a path, and the cJSON calls, which succeed or fail together
  (\<open>json_ok\<close>). \<^verbatim>\<open>fwrite\<close>, whose result the source ignores, writes all its bytes.

  \<open>upload_st\<close> is the handler's local state (\<open>fd\<close> is the path of the open
  \<^verbatim>\<open>FILE\<close>) together with the storage \<open>fs\<close> (path to content), the transport,
  and \<open>trace\<close>, the effects in the order the handler performs them: each
  \<^verbatim>\<open>malloc\<close> with its size, each \<^verbatim>\<open>httpd_req_recv\<close> with its return value, each
  \<^verbatim>\<open>fopen(path, "wb")\<close>, each \<^verbatim>\<open>fwrite\<close> with its bytes, the
  \<^verbatim>\<open>fclose\<close>, and \<open>EvBoundary\<close> where \<^verbatim>\<open>strstr\<close> has located the boundary and
  the source assigns \<^verbatim>\<open>remaining = 0\<close>.

  A step of the handler either goes on (\<open>Continue\<close>) or jumps to
  \<^verbatim>\<open>cleanup_and_send_json\<close> with \<^verbatim>\<open>root_json\<close> set (\<open>Abort\<close>).
\<close>

datatype event = EvMalloc nat | EvRecv int | EvFopen string | EvFwrite string | EvFclose | EvBoundary

datatype reply = JsonReply string "(string \<times> string) list" | Error500 string

record upload_env =
  content_len :: "32 word"
  content_type :: "string option"
  url_query_len :: nat
  url_query_str :: "string option"
  query_key_value :: "string \<Rightarrow> string \<Rightarrow> string option"
  alloc_ok :: "nat \<Rightarrow> bool"
  fopen_ok :: "string \<Rightarrow> bool"
  strerror_errno :: string
  json_ok :: bool

record upload_st =
  remaining :: int
  file_data_started :: bool
  filename :: "string option"
  fd :: "string option"
  fs :: "string \<rightharpoonup> string"
  pending :: "recv_event list"
  remaining_len :: nat
  trace :: "event list"

datatype step = Continue upload_st | Abort reply upload_st

definition error_json :: "string \<Rightarrow> reply" where
  "error_json msg = JsonReply ''200 OK'' [(''status'', ''error''), (''message'', msg)]"

subsection \<open>Headers of the part\<close>

text \<open>
  The scan of the first chunk for \<^verbatim>\<open>Content-Disposition:\<close>, \<^verbatim>\<open>filename="\<close> and the
  closing quote, on the chunk as a C string (\<^verbatim>\<open>buf[ret] = 0\<close>); the name is cut to
  128 characters. \<open>should_overwrite\<close> is the query check, \<open>drain_body\<close> the loop that
  reads the rest of the body into \<^verbatim>\<open>dummy_buf\<close> after a conflict, and
  \<open>open_target\<close> the \<^verbatim>\<open>stat\<close> test with its two branches.
\<close>

datatype header_parse = NoDisposition | NoFilename | NoEndQuote | Filename string

definition parse_filename :: "string \<Rightarrow> header_parse" where
  "parse_filename buf =
     (case strstr buf ''Content-Disposition:'' of
        None \<Rightarrow> NoDisposition
      | Some cd \<Rightarrow>
          (case strstr (drop cd buf) (''filename='' @ [DQUOTE]) of
             None \<Rightarrow> NoFilename
           | Some fn \<Rightarrow>
               (let start = cd + fn + length (''filename='' @ [DQUOTE]) in
                case strchr (drop start buf) DQUOTE of
                  None \<Rightarrow> NoEndQuote
                | Some len \<Rightarrow>
                    if len > 0 then Filename (take (min len 128) (drop start buf))
                    else NoEndQuote)))"

definition should_overwrite :: "upload_env \<Rightarrow> bool" where
  "should_overwrite env =
     (if url_query_len env + 1 > 1 then
        (if alloc_ok env 2 then
           (case url_query_str env of
              None \<Rightarrow> False
            | Some q \<Rightarrow>
                (case query_key_value env q ''overwrite'' of
                   None \<Rightarrow> False
                 | Some v \<Rightarrow> strcasecmp_eq v ''true''))
         else False)
      else False)"

function drain_body :: "upload_st \<Rightarrow> upload_st" where
  "drain_body st =
     (if remaining st > 0 then
        (case httpd_req_recv (pending st) (remaining_len st) (min (nat (remaining st)) 128) of
           (read_now, dummy, pend, rlen) \<Rightarrow>
             (let st1 = st\<lparr>pending := pend, remaining_len := rlen,
                            trace := trace st @ [EvRecv read_now]\<rparr>
              in if read_now \<le> 0 then st1
                 else drain_body (st1\<lparr>remaining := max 0 (remaining st - read_now)\<rparr>)))
      else st)"
  by pat_completeness auto
termination
  by (relation "measure (\<lambda>st. nat (remaining st))") auto

declare drain_body.simps [simp del]

definition conflict_json :: "string \<Rightarrow> reply" where
  "conflict_json name =
     JsonReply ''409 Conflict''
       [(''status'', ''conflict''),
        (''message'', take 227 (''Datoteka '' @ [CHR 0x27] @ name @ [CHR 0x27] @ '' ve''
                                @ [CHR 0xC4, CHR 0x87] @ '' postoji. '' @ [CHR 0xC5, CHR 0xBD]
                                @ ''elite li je prepisati?'')),
        (''filename'', name)]"

definition open_target :: "upload_env \<Rightarrow> upload_st \<Rightarrow> string \<Rightarrow> string \<Rightarrow> step" where
  "open_target env st name filepath =
     (if fs st filepath \<noteq> None \<and> \<not> should_overwrite env
      then Abort (conflict_json name) (drain_body st)
      else if fopen_ok env filepath
      then Continue (st\<lparr>fd := Some filepath,
                          fs := (fs st)(filepath \<mapsto> []),
                          trace := trace st @ [EvFopen filepath]\<rparr>)
      else Abort (error_json
                    (take 227 (''Nije moguce otvoriti datoteku '' @ [CHR 0x27] @ name
                       @ [CHR 0x27] @ '' za pisanje. Gre'' @ [CHR 0xC5, CHR 0xA1]
                       @ ''ka: '' @ strerror_errno env)))
                 (st\<lparr>trace := trace st @ [EvFopen filepath]\<rparr>))"

definition resolve_filename :: "upload_env \<Rightarrow> upload_st \<Rightarrow> string \<Rightarrow> step" where
  "resolve_filename env st buf =
     (case parse_filename buf of
        NoDisposition \<Rightarrow> Abort (error_json ''Nedostaje Content-Disposition zaglavlje.'') st
      | NoFilename \<Rightarrow>
          Abort (error_json ''Ime datoteke nije pronadjeno u Content-Disposition zaglavlju.'') st
      | NoEndQuote \<Rightarrow>
          Abort (error_json ''Neispravan format zaglavlja uploada (ime filea nije parsirano).'') st
      | Filename name \<Rightarrow>
          (let st0 = st\<lparr>trace := trace st @ [EvMalloc (length name + 1)]\<rparr> in
           if \<not> alloc_ok env 1
           then Abort (error_json ''Interna greska servera (memorija za ime filea).'') st0
           else
             (case build_filepath FILE_PATH_MAX MOUNT_POINT (Some name) of
                None \<Rightarrow> Abort (Error500 ''build_filepath'') st0
              | Some filepath \<Rightarrow>
                  open_target env
                    (st0\<lparr>filename := Some name,
                         trace := trace st0 @ (if url_query_len env + 1 > 1
                                               then [EvMalloc (url_query_len env + 1)]
                                               else [])\<rparr>)
                    name filepath)))"

subsection \<open>Payload\<close>

text \<open>
  \<open>payload_len\<close> is the trimming of the line end before a boundary found \<open>b\<close> bytes
  after \<open>start\<close>. \<open>first_data_chunk\<close> is the code for the chunk that holds the
  header separator (the data starts at \<open>data_start\<close>), \<open>next_data_chunk\<close> the code
  for every later chunk, \<open>discard_chunk\<close> the fallback branches that only look for the
  boundary. \<^verbatim>\<open>strstr\<close> sees a chunk up to its first NUL; \<^verbatim>\<open>fwrite\<close> takes its
  bytes from the raw buffer.
\<close>

definition fwrite :: "upload_st \<Rightarrow> string \<Rightarrow> upload_st" where
  "fwrite st bytes =
     (case fd st of
        None \<Rightarrow> st
      | Some p \<Rightarrow>
          st\<lparr>fs := (fs st)(p \<mapsto> (case fs st p of None \<Rightarrow> [] | Some old \<Rightarrow> old) @ bytes),
             trace := trace st @ [EvFwrite bytes]\<rparr>)"

definition payload_len :: "string \<Rightarrow> nat \<Rightarrow> nat \<Rightarrow> nat" where
  "payload_len buf start b =
     (if b \<ge> 2 \<and> buf ! (start + b - 1) = LF \<and> buf ! (start + b - 2) = CR then b - 2
      else if b \<ge> 1 \<and> buf ! (start + b - 1) = LF then b - 1
      else b)"

definition boundary_found :: "upload_st \<Rightarrow> upload_st" where
  "boundary_found st = st\<lparr>remaining := 0, trace := trace st @ [EvBoundary]\<rparr>"

definition first_data_chunk :: "string \<Rightarrow> upload_st \<Rightarrow> string \<Rightarrow> nat \<Rightarrow> upload_st" where
  "first_data_chunk boundary st chunk data_start =
     (let data_to_write_in_this_chunk = length chunk - data_start in
      case strstr (c_str (drop data_start chunk)) boundary of
        None \<Rightarrow>
          if data_to_write_in_this_chunk > 0
          then fwrite st (take data_to_write_in_this_chunk (drop data_start chunk))
          else st
      | Some b \<Rightarrow>
          (let actual_data_len = payload_len chunk data_start b;
               st1 = boundary_found st
           in if actual_data_len > 0
              then fwrite st1 (take actual_data_len (drop data_start chunk))
              else st1))"

definition next_data_chunk :: "string \<Rightarrow> upload_st \<Rightarrow> string \<Rightarrow> upload_st" where
  "next_data_chunk boundary st chunk =
     (case strstr (c_str chunk) boundary of
        None \<Rightarrow> if length chunk > 0 then fwrite st chunk else st
      | Some b \<Rightarrow>
          (let data_to_write = payload_len chunk 0 b;
               st1 = boundary_found st
           in if data_to_write > 0 then fwrite st1 (take data_to_write chunk) else st1))"

definition discard_chunk :: "string \<Rightarrow> upload_st \<Rightarrow> string \<Rightarrow> upload_st" where
  "discard_chunk boundary st data =
     (case strstr (c_str data) boundary of None \<Rightarrow> st | Some b \<Rightarrow> boundary_found st)"

definition upload_chunk :: "upload_env \<Rightarrow> string \<Rightarrow> upload_st \<Rightarrow> string \<Rightarrow> step" where
  "upload_chunk env boundary st chunk =
     (if \<not> file_data_started st then
        (case (if filename st = None then resolve_filename env st (c_str chunk) else Continue st) of
           Abort r s \<Rightarrow> Abort r s
         | Continue st1 \<Rightarrow>
             (case strstr (c_str chunk) CRLFCRLF of
                None \<Rightarrow> Continue st1
              | Some k \<Rightarrow>
                  if fd st1 \<noteq> None \<and> filename st1 \<noteq> None
                  then Continue ((first_data_chunk boundary st1 chunk (k + 4))
                                   \<lparr>file_data_started := True\<rparr>)
                  else if filename st1 \<noteq> None
                  then Continue ((discard_chunk boundary st1 (drop (k + 4) chunk))
                                   \<lparr>file_data_started := True\<rparr>)
                  else Abort (error_json ''Ime datoteke nije pronadjeno u zaglavlju uploada.'') st1))
      else if fd st \<noteq> None then Continue (next_data_chunk boundary st chunk)
      else if filename st \<noteq> None then Continue (discard_chunk boundary st chunk)
      else Continue (discard_chunk boundary st chunk))"

definition recv_error_json :: "int \<Rightarrow> reply" where
  "recv_error_json ret =
     (if ret = sock_err_code HTTPD_SOCK_ERR_TIMEOUT
      then error_json ''Timeout pri primanju podataka tijekom uploada.''
      else if ret = 0 then error_json ''Veza prekinuta od klijenta.''
      else error_json ''Greska pri primanju podataka tijekom uploada.'')"


subsection \<open>The receive loop\<close>

text \<open>
  A step never increases \<^verbatim>\<open>remaining\<close>, and a successful receive returns at least
  one byte, so the loop terminates.
\<close>

lemma fwrite_remaining [simp]: "remaining (fwrite st bytes) = remaining st"
  by (simp add: fwrite_def split: option.splits)

lemma first_data_chunk_remaining:
  "remaining (first_data_chunk boundary st chunk k) \<le> max 0 (remaining st)"
  by (simp add: first_data_chunk_def boundary_found_def Let_def split: option.splits)

lemma next_data_chunk_remaining:
  "remaining (next_data_chunk boundary st chunk) \<le> max 0 (remaining st)"
  by (simp add: next_data_chunk_def boundary_found_def Let_def split: option.splits)

lemma discard_chunk_remaining:
  "remaining (discard_chunk boundary st chunk) \<le> max 0 (remaining st)"
  by (simp add: discard_chunk_def boundary_found_def split: option.splits)

lemma open_target_remaining:
  "open_target env st name p = Continue s \<Longrightarrow> remaining s = remaining st"
  by (auto simp: open_target_def split: if_splits)

lemma resolve_filename_remaining:
  assumes "resolve_filename env st buf = Continue s"
  shows "remaining s = remaining st"
proof (cases "parse_filename buf")
  case (Filename name)
  with assms obtain p st1 where "open_target env st1 name p = Continue s"
      "remaining st1 = remaining st"
    by (simp add: resolve_filename_def Let_def split: if_splits option.splits)
  then show ?thesis using open_target_remaining by fastforce
qed (use assms in \<open>simp_all add: resolve_filename_def\<close>)

lemma upload_chunk_started:
  "file_data_started st \<Longrightarrow>
   upload_chunk env boundary st chunk =
     Continue (if fd st \<noteq> None then next_data_chunk boundary st chunk
               else discard_chunk boundary st chunk)"
  by (simp add: upload_chunk_def)

lemma upload_chunk_headers:
  assumes "\<not> file_data_started st"
      and "(if filename st = None then resolve_filename env st (c_str chunk) else Continue st)
             = Continue st1"
  shows "upload_chunk env boundary st chunk =
           (case strstr (c_str chunk) CRLFCRLF of
              None \<Rightarrow> Continue st1
            | Some k \<Rightarrow>
                if fd st1 \<noteq> None \<and> filename st1 \<noteq> None
                then Continue ((first_data_chunk boundary st1 chunk (k + 4))
                                 \<lparr>file_data_started := True\<rparr>)
                else if filename st1 \<noteq> None
                then Continue ((discard_chunk boundary st1 (drop (k + 4) chunk))
                                 \<lparr>file_data_started := True\<rparr>)
                else Abort (error_json ''Ime datoteke nije pronadjeno u zaglavlju uploada.'') st1)"
  using assms unfolding upload_chunk_def by (simp only: simp_thms if_True if_False step.case)

lemma upload_chunk_headers_abort:
  assumes "\<not> file_data_started st"
      and "(if filename st = None then resolve_filename env st (c_str chunk) else Continue st)
             = Abort r s"
  shows "upload_chunk env boundary st chunk = Abort r s"
  using assms unfolding upload_chunk_def by (simp only: simp_thms if_True if_False step.case)

lemma upload_chunk_remaining:
  assumes "upload_chunk env boundary st chunk = Continue s"
  shows "remaining s \<le> max 0 (remaining st)"
proof (cases "file_data_started st")
  case True
  from assms upload_chunk_started[OF True, of env boundary chunk]
  show ?thesis
    using next_data_chunk_remaining[of boundary st chunk]
          discard_chunk_remaining[of boundary st chunk]
    by (cases "fd st = None") auto
next
  case False
  let ?r = "if filename st = None then resolve_filename env st (c_str chunk) else Continue st"
  show ?thesis
  proof (cases ?r)
    case (Abort r s')
    from upload_chunk_headers_abort[OF False Abort] assms show ?thesis by simp
  next
    case (Continue st1)
    then have r1: "remaining st1 = remaining st"
      by (auto dest: resolve_filename_remaining split: if_splits)
    note u = upload_chunk_headers[OF False Continue, of boundary]
    show ?thesis
    proof (cases "strstr (c_str chunk) CRLFCRLF")
      case None
      with u assms r1 show ?thesis by simp
    next
      case (Some k)
      with u assms r1 show ?thesis
        using first_data_chunk_remaining[of boundary st1 chunk "k + 4"]
              discard_chunk_remaining[of boundary st1 "drop (k + 4) chunk"]
        by (auto split: if_splits)
    qed
  qed
qed

function upload_loop :: "upload_env \<Rightarrow> string \<Rightarrow> upload_st \<Rightarrow> step" where
  "upload_loop env boundary st =
     (if remaining st > 0 then
        (case httpd_req_recv (pending st) (remaining_len st)
                (nat (min (remaining st) (int UPLOAD_BUFFER_SIZE - 1))) of
           (ret, chunk, pend, rlen) \<Rightarrow>
             (let st1 = st\<lparr>pending := pend, remaining_len := rlen,
                            trace := trace st @ [EvRecv ret]\<rparr>
              in if ret \<le> 0 then Abort (recv_error_json ret) st1
                 else (case upload_chunk env boundary st1 chunk of
                         Abort r s \<Rightarrow> Abort r s
                       | Continue s \<Rightarrow>
                           upload_loop env boundary
                             (s\<lparr>remaining := max 0 (remaining s - ret)\<rparr>))))
      else Continue st)"
  by pat_completeness auto
termination
  apply (relation "measure (\<lambda>(env, boundary, st). nat (remaining st))")
   apply simp
  apply (auto dest!: upload_chunk_remaining)
  done

declare upload_loop.simps [simp del]

subsection \<open>Cleanup and response\<close>

definition cleanup_json :: "upload_st \<Rightarrow> reply" where
  "cleanup_json st =
     (case (filename st, fd st) of
        (Some name, Some p) \<Rightarrow>
          JsonReply ''200 OK''
            [(''status'', ''success''),
             (''message'', take 227 (''Datoteka '' @ [CHR 0x27] @ name @ [CHR 0x27]
                                     @ '' je uspjesno uploadana.'')),
             (''filename'', name)]
      | _ \<Rightarrow>
          error_json (''Nije bilo moguce obraditi datoteku. ''
                      @ ''Provjerite ime datoteke i dostupnost SD kartice.''))"

definition fclose :: "upload_st \<Rightarrow> upload_st" where
  "fclose st = (if fd st \<noteq> None then st\<lparr>trace := trace st @ [EvFclose]\<rparr> else st)"

definition send_json_upload_response ::
  "upload_env \<Rightarrow> reply \<Rightarrow> upload_st \<Rightarrow> esp_err \<times> reply \<times> upload_st" where
  "send_json_upload_response env root_json st =
     (if json_ok env then (ESP_OK, root_json, st)
      else (ESP_FAIL, Error500 ''JSON print failed after operation'', st))"

definition cleanup_and_send_json ::
  "upload_env \<Rightarrow> reply option \<Rightarrow> upload_st \<Rightarrow> esp_err \<times> reply \<times> upload_st" where
  "cleanup_and_send_json env root_json st =
     (let st1 = fclose st in
      send_json_upload_response env
        (case root_json of None \<Rightarrow> cleanup_json st1 | Some r \<Rightarrow> r) st1)"

definition upload_init :: "upload_env \<Rightarrow> (string \<rightharpoonup> string) \<Rightarrow> recv_event list \<Rightarrow> upload_st" where
  "upload_init env files events =
     \<lparr>remaining = sint (content_len env), file_data_started = False, filename = None,
      fd = None, fs = files, pending = events, remaining_len = unat (content_len env),
      trace = []\<rparr>"

definition upload_post_handler ::
  "upload_env \<Rightarrow> (string \<rightharpoonup> string) \<Rightarrow> recv_event list \<Rightarrow> esp_err \<times> reply \<times> upload_st" where
  "upload_post_handler env files events =
     (let st = upload_init env files events in
      if remaining st \<le> 0
      then send_json_upload_response env
             (error_json ''Nema podataka za upload (content length je 0 ili neispravan).'') st
      else
        (let st0 = st\<lparr>trace := trace st @ [EvMalloc UPLOAD_BUFFER_SIZE]\<rparr> in
         if \<not> alloc_ok env 0
         then (ESP_FAIL,
               (if json_ok env
                then error_json ''Interna greska servera (memorija za buffer).''
                else Error500 ''Failed to allocate memory and create JSON''), st0)
         else
           (case content_type env of
              None \<Rightarrow>
                cleanup_and_send_json env
                  (Some (error_json ''Nedostaje Content-Type zaglavlje.'')) st0
            | Some hdr \<Rightarrow>
                (case strstr (c_str hdr) ''boundary='' of
                   None \<Rightarrow>
                     cleanup_and_send_json env
                       (Some (error_json ''Neispravan Content-Type, nedostaje boundary.'')) st0
                 | Some k \<Rightarrow>
                     (let boundary = ''--'' @ drop (k + length ''boundary='') (c_str hdr) in
                      if length boundary \<ge> 128
                      then cleanup_and_send_json env
                             (Some (error_json
                                ''Boundary string u Content-Type zaglavlju je predugacak.'')) st0
                      else (case upload_loop env boundary st0 of
                              Abort r s \<Rightarrow> cleanup_and_send_json env (Some r) s
                            | Continue s \<Rightarrow> cleanup_and_send_json env None s))))))"

subsection \<open>Reading a reply\<close>

definition reply_status :: "reply \<Rightarrow> string option" where
  "reply_status r = (case r of JsonReply code kvs \<Rightarrow> map_of kvs ''status'' | Error500 m \<Rightarrow> None)"

definition reply_filename :: "reply \<Rightarrow> string option" where
  "reply_filename r = (case r of JsonReply code kvs \<Rightarrow> map_of kvs ''filename'' | Error500 m \<Rightarrow> None)"

definition reply_code :: "reply \<Rightarrow> string" where
  "reply_code r = (case r of JsonReply code kvs \<Rightarrow> code | Error500 m \<Rightarrow> ''500 Internal Server Error'')"

text \<open>
  The example of the specification: boundary \<open>X\<close>, one file field \<open>a.txt\<close> with the
  content \<open>hello\<close>, 92 bytes, and a request for it in which every allocation, the
  \<^verbatim>\<open>fopen\<close> and the JSON encoding succeed.
\<close>

definition example_body :: string where
  "example_body = ''--X'' @ [CR, LF] @ ''Content-Disposition: form-data; name='' @ [DQUOTE]
     @ ''filetoupload'' @ [DQUOTE] @ ''; filename='' @ [DQUOTE] @ ''a.txt'' @ [DQUOTE]
     @ CRLFCRLF @ ''hello'' @ [CR, LF] @ ''--X--'' @ [CR, LF]"

definition example_env :: upload_env where
  "example_env = \<lparr>content_len = 92, content_type = Some ''multipart/form-data; boundary=X'',
     url_query_len = 0, url_query_str = None, query_key_value = (\<lambda>q k. None),
     alloc_ok = (\<lambda>i. True), fopen_ok = (\<lambda>p. True), strerror_errno = [], json_ok = True\<rparr>"

text \<open>A state of the handler in which the file \<open>a.txt\<close> is open and holds \<open>he\<close>.\<close>

definition open_state :: upload_st where
  "open_state = \<lparr>remaining = 50, file_data_started = False, filename = Some ''a.txt'',
     fd = Some ''/sdcard/a.txt'', fs = [''/sdcard/a.txt'' \<mapsto> ''he''], pending = [],
     remaining_len = 0, trace = []\<rparr>"

text \<open>
  The payload the specification describes for a chunk in which the boundary stands:
  the bytes before the boundary without the CRLF, or else the LF, that ends them.
\<close>

definition strip_line_end :: "string \<Rightarrow> string" where
  "strip_line_end s =
     (if suffix [CR, LF] s then take (length s - 2) s
      else if suffix [LF] s then take (length s - 1) s
      else s)"

section \<open>Properties of the upload handler\<close>

text \<open>
  C10. For a POST whose Content-Length, read into \<^verbatim>\<open>remaining\<close>, is zero or negative,
  the handler performs no effect at all: no receive, no allocation of the chunk buffer,
  no \<^verbatim>\<open>fopen\<close> or \<^verbatim>\<open>fwrite\<close>; storage and transport are as before; and the
  response is the JSON object with status \<open>error\<close> (when cJSON can encode it).
\<close>

theorem upload_empty_request:
  assumes "sint (content_len env) \<le> 0"
  shows "\<exists>r rep st. upload_post_handler env files events = (r, rep, st)
           \<and> trace st = [] \<and> fs st = files \<and> pending st = events
           \<and> remaining_len st = unat (content_len env)
           \<and> (json_ok env \<longrightarrow> r = ESP_OK \<and> reply_status rep = Some ''error''
                  \<and> reply_code rep = ''200 OK'')"
  using assms
  by (simp add: upload_post_handler_def upload_init_def send_json_upload_response_def
        error_json_def reply_status_def reply_code_def Let_def)

theorem upload_empty_request_witness:
  "sint (content_len (example_env\<lparr>content_len := 0\<rparr>)) \<le> 0
   \<and> (\<exists>r rep st.
         upload_post_handler (example_env\<lparr>content_len := 0\<rparr>)
           [''/sdcard/a.txt'' \<mapsto> ''old''] [Data example_body] = (r, rep, st)
       \<and> trace st = [] \<and> fs st ''/sdcard/a.txt'' = Some ''old''
       \<and> pending st = [Data example_body]
       \<and> r = ESP_OK \<and> reply_status rep = Some ''error'')"
proof -
  have h: "sint (content_len (example_env\<lparr>content_len := 0\<rparr>)) \<le> 0"
    by (simp add: example_env_def)
  have j: "json_ok (example_env\<lparr>content_len := 0\<rparr>)" by (simp add: example_env_def)
  from upload_empty_request[OF h, of "[''/sdcard/a.txt'' \<mapsto> ''old'']" "[Data example_body]"] j
  obtain r rep st where
    "upload_post_handler (example_env\<lparr>content_len := 0\<rparr>)
       [''/sdcard/a.txt'' \<mapsto> ''old''] [Data example_body] = (r, rep, st)"
    "trace st = []" "fs st = [''/sdcard/a.txt'' \<mapsto> ''old'']"
    "pending st = [Data example_body]" "r = ESP_OK" "reply_status rep = Some ''error''"
    by blast
  then have "\<exists>r rep st.
         upload_post_handler (example_env\<lparr>content_len := 0\<rparr>)
           [''/sdcard/a.txt'' \<mapsto> ''old''] [Data example_body] = (r, rep, st)
       \<and> trace st = [] \<and> fs st ''/sdcard/a.txt'' = Some ''old''
       \<and> pending st = [Data example_body]
       \<and> r = ESP_OK \<and> reply_status rep = Some ''error''"
    by simp
  with h show ?thesis by (rule conjI)
qed

lemma suffix_two:
  "suffix [x, y] s \<longleftrightarrow> 2 \<le> length s \<and> s ! (length s - 2) = x \<and> s ! (length s - 1) = y"
proof (cases s rule: rev_cases)
  case Nil
  then show ?thesis by simp
next
  case (snoc ys b)
  show ?thesis
  proof (cases ys rule: rev_cases)
    case Nil
    with snoc show ?thesis by (simp add: suffix_def)
  next
    case (snoc zs a)
    with \<open>s = ys @ [b]\<close> have s: "s = zs @ [a, b]" by simp
    then show ?thesis by (auto simp: nth_append suffix_to_prefix)
  qed
qed

lemma suffix_one: "suffix [y] s \<longleftrightarrow> 1 \<le> length s \<and> s ! (length s - 1) = y"
  by (cases s rule: rev_cases) auto

lemma payload_len_strip:
  assumes "start + b \<le> length chunk"
  shows "take (payload_len chunk start b) (drop start chunk)
         = strip_line_end (take b (drop start chunk))"
proof -
  let ?d = "take b (drop start chunk)"
  from assms have len: "length ?d = b" by simp
  have n1: "?d ! (b - 1) = chunk ! (start + b - 1)" if "1 \<le> b"
    using that assms by simp
  have n2: "?d ! (b - 2) = chunk ! (start + b - 2)" if "2 \<le> b"
    using that assms by simp
  have t: "take n ?d = take n (drop start chunk)" if "n \<le> b" for n
    using that by (simp add: min_def)
  show ?thesis
  proof (cases "2 \<le> b \<and> chunk ! (start + b - 1) = LF \<and> chunk ! (start + b - 2) = CR")
    case True
    then have "suffix [CR, LF] ?d" using n1 n2 len by (simp add: suffix_two)
    with True len show ?thesis by (simp add: payload_len_def strip_line_end_def t)
  next
    case False
    then have ns: "\<not> suffix [CR, LF] ?d" using n1 n2 len by (auto simp: suffix_two)
    show ?thesis
    proof (cases "1 \<le> b \<and> chunk ! (start + b - 1) = LF")
      case True
      then have "suffix [LF] ?d" using n1 len by (simp add: suffix_one)
      with True False ns len show ?thesis
        by (auto simp: payload_len_def strip_line_end_def t)
    next
      case F2: False
      then have "\<not> suffix [LF] ?d" using n1 len by (auto simp: suffix_one)
      with F2 False ns show ?thesis
        by (auto simp: payload_len_def strip_line_end_def)
    qed
  qed
qed


lemma c_str_length: "length (c_str s) \<le> length s"
  by (simp add: c_str_def length_takeWhile_le)

lemma fs_fwrite:
  "fd st = Some p \<Longrightarrow> fs st p = Some old \<Longrightarrow> fs (fwrite st bytes) p = Some (old @ bytes)"
  by (simp add: fwrite_def)

lemma first_data_chunk_found:
  assumes fd: "fd st = Some p" and old: "fs st p = Some old"
      and found: "strstr (c_str (drop start chunk)) boundary = Some b"
      and start: "start \<le> length chunk"
  shows "fs (first_data_chunk boundary st chunk start) p
           = Some (old @ strip_line_end (take b (drop start chunk)))
         \<and> remaining (first_data_chunk boundary st chunk start) = 0"
proof -
  from strstr_SomeD[OF found] have "b \<le> length (c_str (drop start chunk))" by simp
  with c_str_length[of "drop start chunk"] have "b \<le> length chunk - start" by simp
  with start have fit: "start + b \<le> length chunk" by linarith
  note ps = payload_len_strip[OF fit]
  let ?st1 = "boundary_found st"
  have f1: "fd ?st1 = Some p" "fs ?st1 p = Some old" "remaining ?st1 = 0"
    using fd old by (simp_all add: boundary_found_def)
  show ?thesis
  proof (cases "payload_len chunk start b > 0")
    case True
    then have "first_data_chunk boundary st chunk start
               = fwrite ?st1 (take (payload_len chunk start b) (drop start chunk))"
      using found by (simp add: first_data_chunk_def Let_def)
    with fs_fwrite[OF f1(1,2)] f1(3) ps show ?thesis by simp
  next
    case False
    then have "first_data_chunk boundary st chunk start = ?st1"
      using found by (simp add: first_data_chunk_def Let_def)
    moreover from False ps have "strip_line_end (take b (drop start chunk)) = []" by simp
    ultimately show ?thesis using f1 by simp
  qed
qed

lemma next_data_chunk_found:
  assumes fd: "fd st = Some p" and old: "fs st p = Some old"
      and found: "strstr (c_str chunk) boundary = Some b"
  shows "fs (next_data_chunk boundary st chunk) p = Some (old @ strip_line_end (take b chunk))
         \<and> remaining (next_data_chunk boundary st chunk) = 0"
proof -
  from strstr_SomeD[OF found] have "b \<le> length (c_str chunk)" by simp
  with c_str_length[of chunk] have fit: "0 + b \<le> length chunk" by simp
  from payload_len_strip[OF fit]
  have ps: "take (payload_len chunk 0 b) chunk = strip_line_end (take b chunk)" by simp
  let ?st1 = "boundary_found st"
  have f1: "fd ?st1 = Some p" "fs ?st1 p = Some old" "remaining ?st1 = 0"
    using fd old by (simp_all add: boundary_found_def)
  show ?thesis
  proof (cases "payload_len chunk 0 b > 0")
    case True
    then have "next_data_chunk boundary st chunk
               = fwrite ?st1 (take (payload_len chunk 0 b) chunk)"
      using found by (simp add: next_data_chunk_def Let_def)
    with fs_fwrite[OF f1(1,2)] f1(3) ps show ?thesis by simp
  next
    case False
    then have "next_data_chunk boundary st chunk = ?st1"
      using found by (simp add: next_data_chunk_def Let_def)
    moreover from False ps have "strip_line_end (take b chunk) = []" by simp
    ultimately show ?thesis using f1 by simp
  qed
qed

text \<open>
  C5. When the boundary is located in a chunk, be it the chunk that holds the header
  separator (the payload region starts after the separator) or a later chunk (the
  region is the whole chunk), the bytes written from that chunk are the bytes of the
  region before the boundary, less two bytes when they end in CRLF, else less one byte
  when they end in LF, else all of them; \<^verbatim>\<open>remaining\<close> becomes 0 and the step goes
  on to the end of the upload, also when those bytes are none.
\<close>

theorem boundary_chunk_payload:
  assumes fd: "fd st1 = Some p" and old: "fs st1 p = Some old" and name: "filename st1 = Some n"
  shows "(\<not> file_data_started st
          \<and> (if filename st = None then resolve_filename env st (c_str chunk) else Continue st)
              = Continue st1
          \<and> strstr (c_str chunk) CRLFCRLF = Some k
          \<and> strstr (c_str (drop (k + 4) chunk)) boundary = Some b
          \<longrightarrow> (\<exists>s. upload_chunk env boundary st chunk = Continue s
                 \<and> fs s p = Some (old @ strip_line_end (take b (drop (k + 4) chunk)))
                 \<and> remaining s = 0 \<and> file_data_started s))
       \<and> (file_data_started st1 \<and> strstr (c_str chunk) boundary = Some b
          \<longrightarrow> (\<exists>s. upload_chunk env boundary st1 chunk = Continue s
                 \<and> fs s p = Some (old @ strip_line_end (take b chunk))
                 \<and> remaining s = 0))"
proof (intro conjI impI)
  assume a: "\<not> file_data_started st
          \<and> (if filename st = None then resolve_filename env st (c_str chunk) else Continue st)
              = Continue st1
          \<and> strstr (c_str chunk) CRLFCRLF = Some k
          \<and> strstr (c_str (drop (k + 4) chunk)) boundary = Some b"
  then have sep: "strstr (c_str chunk) CRLFCRLF = Some k"
    and found: "strstr (c_str (drop (k + 4) chunk)) boundary = Some b" by simp_all
  from strstr_SomeD[OF sep] have "k + 4 \<le> length (c_str chunk)" by (simp add: CRLFCRLF_def)
  with c_str_length[of chunk] have start: "k + 4 \<le> length chunk" by linarith
  from a have "upload_chunk env boundary st chunk
               = Continue ((first_data_chunk boundary st1 chunk (k + 4))\<lparr>file_data_started := True\<rparr>)"
    using upload_chunk_headers[of st env chunk st1 boundary] fd name by simp
  with first_data_chunk_found[OF fd old found start]
  show "\<exists>s. upload_chunk env boundary st chunk = Continue s
                 \<and> fs s p = Some (old @ strip_line_end (take b (drop (k + 4) chunk)))
                 \<and> remaining s = 0 \<and> file_data_started s"
    by simp
next
  assume a: "file_data_started st1 \<and> strstr (c_str chunk) boundary = Some b"
  then have "upload_chunk env boundary st1 chunk = Continue (next_data_chunk boundary st1 chunk)"
    using upload_chunk_started[of st1 env boundary chunk] fd by simp
  with next_data_chunk_found[OF fd old, of chunk boundary b] a
  show "\<exists>s. upload_chunk env boundary st1 chunk = Continue s
                 \<and> fs s p = Some (old @ strip_line_end (take b chunk))
                 \<and> remaining s = 0"
    by simp
qed


theorem boundary_chunk_payload_witness:
  "fd open_state = Some ''/sdcard/a.txt'' \<and> fs open_state ''/sdcard/a.txt'' = Some ''he''
   \<and> strstr (c_str (CRLFCRLF @ ''llo'' @ [CR, LF] @ ''--X--'')) CRLFCRLF = Some 0
   \<and> strstr (c_str (drop (0 + 4) (CRLFCRLF @ ''llo'' @ [CR, LF] @ ''--X--''))) ''--X'' = Some 5
   \<and> (\<exists>s. upload_chunk example_env ''--X'' open_state (CRLFCRLF @ ''llo'' @ [CR, LF] @ ''--X--'')
             = Continue s
          \<and> fs s ''/sdcard/a.txt'' = Some ''hello'' \<and> remaining s = 0)
   \<and> strstr (c_str (''llo'' @ [LF] @ ''--X--'')) ''--X'' = Some 4
   \<and> (\<exists>s. upload_chunk example_env ''--X'' (open_state\<lparr>file_data_started := True\<rparr>)
             (''llo'' @ [LF] @ ''--X--'') = Continue s
          \<and> fs s ''/sdcard/a.txt'' = Some ''hello'' \<and> remaining s = 0)"
proof -
  let ?c1 = "CRLFCRLF @ ''llo'' @ [CR, LF] @ ''--X--''"
  let ?c2 = "''llo'' @ [LF] @ ''--X--''"
  let ?st2 = "open_state\<lparr>file_data_started := True\<rparr>"
  have o: "fd open_state = Some ''/sdcard/a.txt''" "fs open_state ''/sdcard/a.txt'' = Some ''he''"
          "filename open_state = Some ''a.txt''"
    by (simp_all add: open_state_def)
  have o2: "fd ?st2 = Some ''/sdcard/a.txt''" "fs ?st2 ''/sdcard/a.txt'' = Some ''he''"
           "filename ?st2 = Some ''a.txt''"
    by (simp_all add: open_state_def)
  have h1: "\<not> file_data_started open_state
            \<and> (if filename open_state = None
                 then resolve_filename example_env open_state (c_str ?c1)
                 else Continue open_state) = Continue open_state"
    by (simp add: open_state_def)
  have k: "strstr (c_str ?c1) CRLFCRLF = Some 0" by code_simp
  have b1: "strstr (c_str (drop (0 + 4) ?c1)) ''--X'' = Some 5" by code_simp
  have p1: "strip_line_end (take 5 (drop (0 + 4) ?c1)) = ''llo''" by code_simp
  have h2: "file_data_started ?st2" by simp
  have b2: "strstr (c_str ?c2) ''--X'' = Some 4" by code_simp
  have p2: "strip_line_end (take 4 ?c2) = ''llo''" by code_simp
  from boundary_chunk_payload[OF o, of open_state example_env ?c1 0 "''--X''" 5] h1 k b1
  obtain s1 where s1: "upload_chunk example_env ''--X'' open_state ?c1 = Continue s1"
      "fs s1 ''/sdcard/a.txt'' = Some (''he'' @ strip_line_end (take 5 (drop (0 + 4) ?c1)))"
      "remaining s1 = 0"
    by blast
  from boundary_chunk_payload[OF o2, of open_state example_env ?c2 0 "''--X''" 4] h2 b2
  obtain s2 where s2: "upload_chunk example_env ''--X'' ?st2 ?c2 = Continue s2"
      "fs s2 ''/sdcard/a.txt'' = Some (''he'' @ strip_line_end (take 4 ?c2))"
      "remaining s2 = 0"
    by blast
  from s1 p1 have e1: "\<exists>s. upload_chunk example_env ''--X'' open_state ?c1 = Continue s
          \<and> fs s ''/sdcard/a.txt'' = Some ''hello'' \<and> remaining s = 0"
    by simp
  from s2 p2 have e2: "\<exists>s. upload_chunk example_env ''--X'' ?st2 ?c2 = Continue s
          \<and> fs s ''/sdcard/a.txt'' = Some ''hello'' \<and> remaining s = 0"
    by simp
  from o(1,2) k b1 e1 b2 e2 show ?thesis by blast
qed

subsection \<open>The boundary ends the receive loop\<close>

text \<open>
  \<open>final_state\<close> is the state a step or the loop ends in. \<open>stops_at_boundary\<close>:
  whatever follows an \<open>EvBoundary\<close> in the trace is no receive, and the counter is 0.
\<close>

fun final_state :: "step \<Rightarrow> upload_st" where
  "final_state (Continue s) = s"
| "final_state (Abort r s) = s"

definition stops_at_boundary :: "upload_st \<Rightarrow> bool" where
  "stops_at_boundary s \<longleftrightarrow>
     (\<forall>xs ys. trace s = xs @ EvBoundary # ys \<longrightarrow> (\<forall>r. EvRecv r \<notin> set ys) \<and> remaining s = 0)"

lemma stops_at_boundaryI:
  assumes tr: "trace s = pre @ evs"
      and pre: "EvBoundary \<notin> set pre"
      and quiet: "\<forall>r. EvRecv r \<notin> set evs"
      and zero: "EvBoundary \<in> set evs \<longrightarrow> remaining s = 0"
  shows "stops_at_boundary s"
  unfolding stops_at_boundary_def
proof (intro allI impI)
  fix xs ys
  assume d: "trace s = xs @ EvBoundary # ys"
  with tr have eq: "pre @ evs = xs @ EvBoundary # ys" by simp
  then have "EvBoundary \<in> set (pre @ evs)" by simp
  with pre have "EvBoundary \<in> set evs" by simp
  with zero have z: "remaining s = 0" by simp
  from eq obtain us where
    "(pre = xs @ us \<and> us @ evs = EvBoundary # ys) \<or> (pre @ us = xs \<and> evs = us @ EvBoundary # ys)"
    by (auto simp: append_eq_append_conv2)
  then have "set ys \<subseteq> set evs"
  proof
    assume a: "pre = xs @ us \<and> us @ evs = EvBoundary # ys"
    with pre have "us = []" by (cases us) auto
    with a show ?thesis by auto
  next
    assume "pre @ us = xs \<and> evs = us @ EvBoundary # ys"
    then show ?thesis by auto
  qed
  with quiet z show "(\<forall>r. EvRecv r \<notin> set ys) \<and> remaining s = 0" by auto
qed

lemma stops_at_boundary_none: "EvBoundary \<notin> set (trace s) \<Longrightarrow> stops_at_boundary s"
  by (auto simp: stops_at_boundary_def)

lemma trace_fwrite:
  "trace (fwrite st bytes) = trace st @ (if fd st = None then [] else [EvFwrite bytes])"
  by (simp add: fwrite_def split: option.splits)

lemma fd_boundary_found [simp]: "fd (boundary_found st) = fd st"
  by (simp add: boundary_found_def)

lemma first_data_chunk_trace:
  "\<exists>evs. trace (first_data_chunk boundary st chunk k) = trace st @ evs
         \<and> (\<forall>r. EvRecv r \<notin> set evs)
         \<and> (EvBoundary \<in> set evs \<longrightarrow> remaining (first_data_chunk boundary st chunk k) = 0)"
  by (simp add: first_data_chunk_def Let_def trace_fwrite boundary_found_def
           split: option.splits)

lemma next_data_chunk_trace:
  "\<exists>evs. trace (next_data_chunk boundary st chunk) = trace st @ evs
         \<and> (\<forall>r. EvRecv r \<notin> set evs)
         \<and> (EvBoundary \<in> set evs \<longrightarrow> remaining (next_data_chunk boundary st chunk) = 0)"
  by (simp add: next_data_chunk_def Let_def trace_fwrite boundary_found_def
           split: option.splits)

lemma discard_chunk_trace:
  "\<exists>evs. trace (discard_chunk boundary st chunk) = trace st @ evs
         \<and> (\<forall>r. EvRecv r \<notin> set evs)
         \<and> (EvBoundary \<in> set evs \<longrightarrow> remaining (discard_chunk boundary st chunk) = 0)"
  by (simp add: discard_chunk_def boundary_found_def split: option.splits)

lemma drain_body_trace:
  "\<exists>evs. trace (drain_body st) = trace st @ evs \<and> EvBoundary \<notin> set evs"
proof (induction st rule: drain_body.induct)
  case (1 st)
  show ?case
  proof (cases "remaining st > 0")
    case False
    then show ?thesis by (simp add: drain_body.simps)
  next
    case True
    obtain read_now dummy pend rlen where
      r: "httpd_req_recv (pending st) (remaining_len st) (min (nat (remaining st)) 128)
            = (read_now, dummy, pend, rlen)"
      by (cases "httpd_req_recv (pending st) (remaining_len st) (min (nat (remaining st)) 128)")
    let ?st1 = "st\<lparr>pending := pend, remaining_len := rlen, trace := trace st @ [EvRecv read_now]\<rparr>"
    show ?thesis
    proof (cases "read_now \<le> 0")
      case le: True
      with True r have "drain_body st = ?st1" by (simp add: drain_body.simps[of st])
      then show ?thesis by simp
    next
      case gt: False
      let ?st2 = "?st1\<lparr>remaining := max 0 (remaining st - read_now)\<rparr>"
      from True r gt have d: "drain_body st = drain_body ?st2"
        by (simp add: drain_body.simps[of st] Let_def)
      from 1[OF True r[symmetric] refl refl refl gt]
      obtain evs where "trace (drain_body ?st2) = trace ?st2 @ evs" "EvBoundary \<notin> set evs"
        by blast
      with d show ?thesis by simp
    qed
  qed
qed


lemma open_target_trace:
  "\<exists>evs. trace (final_state (open_target env st name p)) = trace st @ evs
         \<and> EvBoundary \<notin> set evs
         \<and> ((\<exists>s. open_target env st name p = Continue s) \<longrightarrow> (\<forall>r. EvRecv r \<notin> set evs))"
proof (cases "fs st p \<noteq> None \<and> \<not> should_overwrite env")
  case True
  then have "open_target env st name p = Abort (conflict_json name) (drain_body st)"
    by (simp add: open_target_def)
  with drain_body_trace[of st] show ?thesis by auto
next
  case False
  then show ?thesis by (cases "fopen_ok env p") (auto simp: open_target_def)
qed

lemma resolve_filename_trace:
  "\<exists>evs. trace (final_state (resolve_filename env st buf)) = trace st @ evs
         \<and> EvBoundary \<notin> set evs
         \<and> ((\<exists>s. resolve_filename env st buf = Continue s) \<longrightarrow> (\<forall>r. EvRecv r \<notin> set evs))"
proof (cases "parse_filename buf")
  case (Filename name)
  let ?st0 = "st\<lparr>trace := trace st @ [EvMalloc (length name + 1)]\<rparr>"
  show ?thesis
  proof (cases "alloc_ok env 1")
    case False
    with Filename show ?thesis by (simp add: resolve_filename_def Let_def)
  next
    case True
    show ?thesis
    proof (cases "build_filepath FILE_PATH_MAX MOUNT_POINT (Some name)")
      case None
      with True Filename show ?thesis by (simp add: resolve_filename_def Let_def)
    next
      case (Some p)
      let ?q = "if url_query_len env + 1 > 1 then [EvMalloc (url_query_len env + 1)] else []"
      let ?st1 = "?st0\<lparr>filename := Some name, trace := trace ?st0 @ ?q\<rparr>"
      from Some True Filename
      have r: "resolve_filename env st buf = open_target env ?st1 name p"
        by (simp add: resolve_filename_def Let_def)
      from open_target_trace[of env ?st1 name p] obtain evs where
        e: "trace (final_state (open_target env ?st1 name p)) = trace ?st1 @ evs"
           "EvBoundary \<notin> set evs"
           "(\<exists>s. open_target env ?st1 name p = Continue s) \<longrightarrow> (\<forall>r. EvRecv r \<notin> set evs)"
        by blast
      let ?evs = "[EvMalloc (length name + 1)] @ ?q @ evs"
      have "trace (final_state (resolve_filename env st buf)) = trace st @ ?evs"
        using r e(1) by simp
      moreover have "EvBoundary \<notin> set ?evs" using e(2) by simp
      moreover have "(\<exists>s. resolve_filename env st buf = Continue s) \<longrightarrow> (\<forall>r. EvRecv r \<notin> set ?evs)"
        using r e(3) by simp
      ultimately show ?thesis by blast
    qed
  qed
qed (simp_all add: resolve_filename_def)

lemma upload_chunk_trace:
  "\<exists>evs. trace (final_state (upload_chunk env boundary st chunk)) = trace st @ evs
         \<and> (\<forall>s. upload_chunk env boundary st chunk = Continue s \<longrightarrow>
                (\<forall>r. EvRecv r \<notin> set evs) \<and> (EvBoundary \<in> set evs \<longrightarrow> remaining s = 0))
         \<and> (\<forall>r s. upload_chunk env boundary st chunk = Abort r s \<longrightarrow> EvBoundary \<notin> set evs)"
proof (cases "file_data_started st")
  case True
  note u = upload_chunk_started[OF True, of env boundary chunk]
  show ?thesis
  proof (cases "fd st = None")
    case T: True
    with u discard_chunk_trace[of boundary st chunk] show ?thesis by auto
  next
    case False
    with u next_data_chunk_trace[of boundary st chunk] show ?thesis by auto
  qed
next
  case False
  let ?r = "if filename st = None then resolve_filename env st (c_str chunk) else Continue st"
  have "\<exists>evs. trace (final_state ?r) = trace st @ evs \<and> EvBoundary \<notin> set evs
         \<and> ((\<exists>s. ?r = Continue s) \<longrightarrow> (\<forall>r. EvRecv r \<notin> set evs))"
    using resolve_filename_trace[of env st "c_str chunk"] by (cases "filename st = None") auto
  then obtain evs0 where e0: "trace (final_state ?r) = trace st @ evs0" "EvBoundary \<notin> set evs0"
      "(\<exists>s. ?r = Continue s) \<longrightarrow> (\<forall>r. EvRecv r \<notin> set evs0)"
    by blast
  show ?thesis
  proof (cases ?r)
    case (Abort r s)
    from upload_chunk_headers_abort[OF False Abort, of boundary] Abort e0 show ?thesis by auto
  next
    case (Continue st1)
    note u = upload_chunk_headers[OF False Continue, of boundary]
    from Continue e0 have t1: "trace st1 = trace st @ evs0" and q0: "\<forall>r. EvRecv r \<notin> set evs0"
      by auto
    show ?thesis
    proof (cases "strstr (c_str chunk) CRLFCRLF")
      case None
      with u t1 q0 e0(2) show ?thesis by auto
    next
      case (Some k)
      show ?thesis
      proof (cases "fd st1 \<noteq> None \<and> filename st1 \<noteq> None")
        case True
        from first_data_chunk_trace[of boundary st1 chunk "k + 4"] obtain evs where
          e: "trace (first_data_chunk boundary st1 chunk (k + 4)) = trace st1 @ evs"
             "\<forall>r. EvRecv r \<notin> set evs"
             "EvBoundary \<in> set evs \<longrightarrow> remaining (first_data_chunk boundary st1 chunk (k + 4)) = 0"
          by blast
        from u Some True have uc: "upload_chunk env boundary st chunk
              = Continue ((first_data_chunk boundary st1 chunk (k + 4))\<lparr>file_data_started := True\<rparr>)"
          by simp
        have "trace (final_state (upload_chunk env boundary st chunk)) = trace st @ (evs0 @ evs)"
          using uc e(1) t1 by simp
        moreover have "\<forall>r. EvRecv r \<notin> set (evs0 @ evs)" using q0 e(2) by simp
        moreover have "EvBoundary \<in> set (evs0 @ evs) \<longrightarrow>
                       remaining ((first_data_chunk boundary st1 chunk (k + 4))\<lparr>file_data_started := True\<rparr>) = 0"
          using e0(2) e(3) by simp
        ultimately show ?thesis using uc by (intro exI[of _ "evs0 @ evs"]) simp
      next
        case F1: False
        show ?thesis
        proof (cases "filename st1 \<noteq> None")
          case True
          from discard_chunk_trace[of boundary st1 "drop (k + 4) chunk"] obtain evs where
            e: "trace (discard_chunk boundary st1 (drop (k + 4) chunk)) = trace st1 @ evs"
               "\<forall>r. EvRecv r \<notin> set evs"
               "EvBoundary \<in> set evs \<longrightarrow>
                  remaining (discard_chunk boundary st1 (drop (k + 4) chunk)) = 0"
            by blast
          from u Some True F1 have uc: "upload_chunk env boundary st chunk
                = Continue ((discard_chunk boundary st1 (drop (k + 4) chunk))\<lparr>file_data_started := True\<rparr>)"
            by simp
          have "trace (final_state (upload_chunk env boundary st chunk)) = trace st @ (evs0 @ evs)"
            using uc e(1) t1 by simp
          moreover have "\<forall>r. EvRecv r \<notin> set (evs0 @ evs)" using q0 e(2) by simp
          moreover have "EvBoundary \<in> set (evs0 @ evs) \<longrightarrow>
                remaining ((discard_chunk boundary st1 (drop (k + 4) chunk))\<lparr>file_data_started := True\<rparr>) = 0"
            using e0(2) e(3) by simp
          ultimately show ?thesis using uc by (intro exI[of _ "evs0 @ evs"]) simp
        next
          case F2: False
          with u Some F1 t1 e0(2) show ?thesis by auto
        qed
      qed
    qed
  qed
qed


lemma upload_loop_done:
  "remaining st \<le> 0 \<Longrightarrow> upload_loop env boundary st = Continue st"
  by (simp add: upload_loop.simps)

lemma upload_loop_stops_at_boundary:
  "EvBoundary \<notin> set (trace st) \<Longrightarrow>
   stops_at_boundary (final_state (upload_loop env boundary st))"
proof (induction env boundary st rule: upload_loop.induct)
  case (1 env boundary st)
  show ?case
  proof (cases "remaining st > 0")
    case False
    then have "upload_loop env boundary st = Continue st" by (simp add: upload_loop.simps)
    with "1.prems" show ?thesis by (simp add: stops_at_boundary_none)
  next
    case True
    obtain ret chunk pend rlen where
      r: "httpd_req_recv (pending st) (remaining_len st)
            (nat (min (remaining st) (int UPLOAD_BUFFER_SIZE - 1))) = (ret, chunk, pend, rlen)"
      by (cases "httpd_req_recv (pending st) (remaining_len st)
                   (nat (min (remaining st) (int UPLOAD_BUFFER_SIZE - 1)))")
    let ?st1 = "st\<lparr>pending := pend, remaining_len := rlen, trace := trace st @ [EvRecv ret]\<rparr>"
    have p1: "EvBoundary \<notin> set (trace ?st1)" using "1.prems" by simp
    show ?thesis
    proof (cases "ret \<le> 0")
      case le: True
      with True r have "upload_loop env boundary st = Abort (recv_error_json ret) ?st1"
        by (simp add: upload_loop.simps[of env boundary st])
      with p1 show ?thesis by (simp add: stops_at_boundary_none)
    next
      case gt: False
      from upload_chunk_trace[of env boundary ?st1 chunk] obtain evs where
        e: "trace (final_state (upload_chunk env boundary ?st1 chunk)) = trace ?st1 @ evs"
           "\<forall>s. upload_chunk env boundary ?st1 chunk = Continue s \<longrightarrow>
                (\<forall>r. EvRecv r \<notin> set evs) \<and> (EvBoundary \<in> set evs \<longrightarrow> remaining s = 0)"
           "\<forall>r s. upload_chunk env boundary ?st1 chunk = Abort r s \<longrightarrow> EvBoundary \<notin> set evs"
        by blast
      show ?thesis
      proof (cases "upload_chunk env boundary ?st1 chunk")
        case (Abort rep s)
        with True r gt have "upload_loop env boundary st = Abort rep s"
          by (simp add: upload_loop.simps[of env boundary st] Let_def)
        moreover from Abort e p1 have "EvBoundary \<notin> set (trace s)" by auto
        ultimately show ?thesis by (simp add: stops_at_boundary_none)
      next
        case (Continue s)
        let ?s' = "s\<lparr>remaining := max 0 (remaining s - ret)\<rparr>"
        from True r gt Continue
        have l: "upload_loop env boundary st = upload_loop env boundary ?s'"
          by (simp add: upload_loop.simps[of env boundary st] Let_def)
        from Continue e have ts: "trace s = trace ?st1 @ evs" "\<forall>r. EvRecv r \<notin> set evs"
            "EvBoundary \<in> set evs \<longrightarrow> remaining s = 0"
          by auto
        show ?thesis
        proof (cases "EvBoundary \<in> set evs")
          case found: True
          with ts(3) gt have z: "remaining ?s' = 0" by simp
          then have "upload_loop env boundary ?s' = Continue ?s'"
            by (intro upload_loop_done) simp
          moreover have "stops_at_boundary ?s'"
          proof (rule stops_at_boundaryI[of ?s' "trace ?st1" evs])
            show "trace ?s' = trace ?st1 @ evs" using ts(1) by simp
            show "EvBoundary \<notin> set (trace ?st1)" by (rule p1)
            show "\<forall>r. EvRecv r \<notin> set evs" by (rule ts(2))
            show "EvBoundary \<in> set evs \<longrightarrow> remaining ?s' = 0" using z by blast
          qed
          ultimately show ?thesis using l by simp
        next
          case nf: False
          with ts(1) p1 have "EvBoundary \<notin> set (trace ?s')" by simp
          from "1.IH"[OF True r[symmetric] refl refl refl gt Continue this] l
          show ?thesis by simp
        qed
      qed
    qed
  qed
qed

lemma stops_at_boundary_fclose: "stops_at_boundary s \<Longrightarrow> stops_at_boundary (fclose s)"
proof (cases "fd s = None")
  case True
  then have "fclose s = s" by (simp add: fclose_def)
  then show "stops_at_boundary s \<Longrightarrow> stops_at_boundary (fclose s)" by simp
next
  case False
  assume a: "stops_at_boundary s"
  from False have t: "trace (fclose s) = trace s @ [EvFclose]" and r: "remaining (fclose s) = remaining s"
    by (simp_all add: fclose_def)
  show "stops_at_boundary (fclose s)"
    unfolding stops_at_boundary_def
  proof (intro allI impI)
    fix xs ys
    assume d: "trace (fclose s) = xs @ EvBoundary # ys"
    with t have "trace s @ [EvFclose] = xs @ EvBoundary # ys" by simp
    then obtain zs where ys: "ys = zs @ [EvFclose]" and "trace s = xs @ EvBoundary # zs"
      by (cases ys rule: rev_cases) auto
    with a have "(\<forall>r. EvRecv r \<notin> set zs) \<and> remaining s = 0"
      by (simp add: stops_at_boundary_def)
    with ys r show "(\<forall>r. EvRecv r \<notin> set ys) \<and> remaining (fclose s) = 0" by simp
  qed
qed

lemma cleanup_state:
  "snd (snd (cleanup_and_send_json env j s)) = fclose s"
  by (simp add: cleanup_and_send_json_def send_json_upload_response_def Let_def)

text \<open>
  In the trace of a whole run of the handler no receive follows an \<open>EvBoundary\<close>,
  and the counter is 0 at the end.
\<close>

lemma handler_stops_at_boundary:
  assumes run: "upload_post_handler env files events = (r, rep, st)"
      and cut: "trace st = xs @ EvBoundary # ys"
  shows "(\<forall>x. EvRecv x \<notin> set ys) \<and> remaining st = 0"
proof -
  have "stops_at_boundary (snd (snd (upload_post_handler env files events)))"
  proof (cases "remaining (upload_init env files events) \<le> 0")
    case True
    then show ?thesis
      by (simp add: upload_post_handler_def send_json_upload_response_def Let_def
            upload_init_def stops_at_boundary_none)
  next
    case pos: False
    let ?st0 = "(upload_init env files events)
                  \<lparr>trace := trace (upload_init env files events) @ [EvMalloc UPLOAD_BUFFER_SIZE]\<rparr>"
    have t0: "EvBoundary \<notin> set (trace ?st0)" by (simp add: upload_init_def)
    have fd0: "fd ?st0 = None" by (simp add: upload_init_def)
    have c0: "stops_at_boundary (snd (snd (cleanup_and_send_json env j ?st0)))" for j
      unfolding cleanup_state using t0 fd0 by (simp add: fclose_def stops_at_boundary_none)
    show ?thesis
    proof (cases "alloc_ok env 0")
      case False
      with pos t0 show ?thesis
        by (simp add: upload_post_handler_def Let_def stops_at_boundary_none)
    next
      case ok: True
      show ?thesis
      proof (cases "content_type env")
        case None
        with pos ok c0 show ?thesis by (simp add: upload_post_handler_def Let_def)
      next
        case (Some hdr)
        show ?thesis
        proof (cases "strstr (c_str hdr) ''boundary=''")
          case None
          with Some pos ok c0 show ?thesis by (simp add: upload_post_handler_def Let_def)
        next
          case (Some k)
          let ?b = "''--'' @ drop (k + length ''boundary='') (c_str hdr)"
          show ?thesis
          proof (cases "length ?b \<ge> 128")
            case True
            with Some \<open>content_type env = Some hdr\<close> pos ok c0 show ?thesis
              by (simp add: upload_post_handler_def Let_def)
          next
            case False
            from upload_loop_stops_at_boundary[OF t0, of env ?b]
            have "stops_at_boundary (fclose (final_state (upload_loop env ?b ?st0)))"
              by (rule stops_at_boundary_fclose)
            moreover have "snd (snd (upload_post_handler env files events))
                           = fclose (final_state (upload_loop env ?b ?st0))"
              using False Some \<open>content_type env = Some hdr\<close> pos ok
              by (cases "upload_loop env ?b ?st0")
                 (simp_all add: upload_post_handler_def Let_def cleanup_state)
            ultimately show ?thesis by simp
          qed
        qed
      qed
    qed
  qed
  with run cut show ?thesis by (simp add: stops_at_boundary_def)
qed


subsection \<open>From the request to the first chunk\<close>

text \<open>
  A positive \<^verbatim>\<open>remaining\<close> is the declared length itself. \<open>multipart_boundary\<close>
  is the boundary the handler takes from the Content-Type header (\<open>None\<close> on each of
  its three error branches), \<open>upload_start\<close> the state in which the receive loop is
  entered.
\<close>

lemma sint_pos_unat:
  assumes "0 < sint (w :: 32 word)"
  shows "int (unat w) = sint w"
proof -
  have a: "sint w = signed_take_bit 31 (uint w)" by (simp add: sint_uint)
  with assms have "0 < signed_take_bit 31 (uint w)" by simp
  then have "0 \<le> signed_take_bit 31 (uint w)" by (rule less_imp_le)
  then have nb: "\<not> bit (uint w) 31"
    using signed_take_bit_nonnegative_iff[of 31 "uint w"] by blast
  have "uint w < 2 ^ 32" using uint_bounded[of w] by simp
  then have "uint w = take_bit (Suc 31) (uint w)" by (simp add: take_bit_int_eq_self)
  also have "\<dots> = take_bit 31 (uint w)"
    using nb take_bit_Suc_from_most[of 31 "uint w"] by simp
  finally have t: "take_bit 31 (uint w) = uint w" by (rule sym)
  note a
  also have "signed_take_bit 31 (uint w) = take_bit 31 (uint w)"
    using nb by (rule signed_take_bit_eq_if_positive)
  also note t
  finally have "sint w = uint w" .
  then show ?thesis by (simp only: uint_nat)
qed


definition multipart_boundary :: "upload_env \<Rightarrow> string option" where
  "multipart_boundary env =
     (case content_type env of
        None \<Rightarrow> None
      | Some hdr \<Rightarrow>
          (case strstr (c_str hdr) ''boundary='' of
             None \<Rightarrow> None
           | Some k \<Rightarrow>
               (let boundary = ''--'' @ drop (k + length ''boundary='') (c_str hdr)
                in if length boundary \<ge> 128 then None else Some boundary)))"

definition upload_start :: "upload_env \<Rightarrow> (string \<rightharpoonup> string) \<Rightarrow> recv_event list \<Rightarrow> upload_st" where
  "upload_start env files events =
     (upload_init env files events)\<lparr>trace := [EvMalloc UPLOAD_BUFFER_SIZE]\<rparr>"

lemma upload_post_handler_loop:
  assumes "0 < sint (content_len env)" and "alloc_ok env 0"
      and "multipart_boundary env = Some boundary"
  shows "upload_post_handler env files events =
           (case upload_loop env boundary (upload_start env files events) of
              Abort r s \<Rightarrow> cleanup_and_send_json env (Some r) s
            | Continue s \<Rightarrow> cleanup_and_send_json env None s)"
proof -
  from assms(3) obtain hdr k where h: "content_type env = Some hdr"
      "strstr (c_str hdr) ''boundary='' = Some k"
      "boundary = ''--'' @ drop (k + length ''boundary='') (c_str hdr)"
      "\<not> length (''--'' @ drop (k + length ''boundary='') (c_str hdr)) \<ge> 128"
    by (auto simp: multipart_boundary_def Let_def split: option.splits if_splits)
  have r: "\<not> remaining (upload_init env files events) \<le> 0"
    using assms(1) by (simp add: upload_init_def)
  have s0: "(upload_init env files events)
              \<lparr>trace := trace (upload_init env files events) @ [EvMalloc UPLOAD_BUFFER_SIZE]\<rparr>
            = upload_start env files events"
    by (simp add: upload_start_def upload_init_def)
  show ?thesis
    unfolding upload_post_handler_def Let_def s0
    using r assms(2) h(1,2,4) unfolding h(3) by (simp only: if_False simp_thms option.case if_True)
qed

lemma httpd_req_recv_whole:
  assumes "chunk \<noteq> []" and "length chunk \<le> n" and "length chunk \<le> rlen"
  shows "httpd_req_recv (Data chunk # rest) rlen n
           = (int (length chunk), chunk, rest, rlen - length chunk)"
proof -
  from assms(1) obtain c cs where "chunk = c # cs" by (cases chunk) auto
  with assms(2,3) have "0 < min n rlen" "length chunk \<le> min n rlen" by auto
  then show ?thesis by (simp add: httpd_req_recv_def Let_def)
qed

lemma upload_loop_step:
  assumes "remaining st > 0"
      and "httpd_req_recv (pending st) (remaining_len st)
             (nat (min (remaining st) (int UPLOAD_BUFFER_SIZE - 1))) = (ret, chunk, pend, rlen)"
      and "ret > 0"
  shows "upload_loop env boundary st =
           (case upload_chunk env boundary
                   (st\<lparr>pending := pend, remaining_len := rlen, trace := trace st @ [EvRecv ret]\<rparr>)
                   chunk of
              Abort r s \<Rightarrow> Abort r s
            | Continue s \<Rightarrow>
                upload_loop env boundary (s\<lparr>remaining := max 0 (remaining s - ret)\<rparr>))"
  using assms by (simp add: upload_loop.simps[of env boundary st] Let_def)

lemma resolve_filename_named:
  assumes "parse_filename buf = Filename name" and "alloc_ok env 1"
      and "build_filepath FILE_PATH_MAX MOUNT_POINT (Some name) = Some path"
  shows "resolve_filename env st buf =
           open_target env
             (st\<lparr>filename := Some name,
                 trace := trace st @ [EvMalloc (length name + 1)]
                          @ (if url_query_len env + 1 > 1 then [EvMalloc (url_query_len env + 1)]
                             else [])\<rparr>)
             name path"
  using assms by (simp add: resolve_filename_def Let_def)

subsection \<open>Name conflicts\<close>

text \<open>
  \<open>delivering\<close>: every piece the socket still holds is data, none is an error or a
  close.
\<close>

definition delivering :: "recv_event list \<Rightarrow> bool" where
  "delivering pend = list_all (\<lambda>e. case e of Data bs \<Rightarrow> bs \<noteq> [] | SockErr x \<Rightarrow> False) pend"

lemma drain_body_keeps:
  "fs (drain_body st) = fs st \<and> fd (drain_body st) = fd st
   \<and> filename (drain_body st) = filename st
   \<and> (\<exists>rs. trace (drain_body st) = trace st @ map EvRecv rs)"
proof (induction st rule: drain_body.induct)
  case (1 st)
  show ?case
  proof (cases "remaining st > 0")
    case False
    then have "drain_body st = st" by (simp add: drain_body.simps)
    then show ?thesis by simp
  next
    case True
    obtain read_now dummy pend rlen where
      r: "httpd_req_recv (pending st) (remaining_len st) (min (nat (remaining st)) 128)
            = (read_now, dummy, pend, rlen)"
      by (cases "httpd_req_recv (pending st) (remaining_len st) (min (nat (remaining st)) 128)")
    let ?st1 = "st\<lparr>pending := pend, remaining_len := rlen, trace := trace st @ [EvRecv read_now]\<rparr>"
    show ?thesis
    proof (cases "read_now \<le> 0")
      case le: True
      with True r have "drain_body st = ?st1" by (simp add: drain_body.simps[of st])
      then show ?thesis by (intro conjI exI[of _ "[read_now]"]) simp_all
    next
      case gt: False
      let ?st2 = "?st1\<lparr>remaining := max 0 (remaining st - read_now)\<rparr>"
      from True r gt have d: "drain_body st = drain_body ?st2"
        by (simp add: drain_body.simps[of st] Let_def)
      from 1[OF True r[symmetric] refl refl refl gt]
      obtain rs where k: "fs (drain_body ?st2) = fs ?st2" "fd (drain_body ?st2) = fd ?st2"
          "filename (drain_body ?st2) = filename ?st2"
          "trace (drain_body ?st2) = trace ?st2 @ map EvRecv rs"
        by blast
      have "trace (drain_body st) = trace st @ map EvRecv (read_now # rs)"
        using d k(4) by simp
      with d k(1,2,3) show ?thesis by (intro conjI exI[of _ "read_now # rs"]) simp_all
    qed
  qed
qed


lemma httpd_req_recv_delivering:
  assumes d: "delivering pend" and n: "0 < n"
  shows "(rlen = 0 \<and> httpd_req_recv pend rlen n = (0, [], pend, rlen))
       \<or> (pend = [] \<and> httpd_req_recv pend rlen n = (0, [], pend, rlen))
       \<or> (\<exists>ret data pend'. httpd_req_recv pend rlen n = (int ret, data, pend', rlen - ret)
              \<and> 0 < ret \<and> ret \<le> rlen \<and> ret \<le> n \<and> delivering pend')"
proof (cases "min n rlen = 0")
  case True
  with n have "rlen = 0" by simp
  then show ?thesis by (simp add: httpd_req_recv_def)
next
  case nz: False
  show ?thesis
  proof (cases pend)
    case Nil
    then show ?thesis by (simp add: httpd_req_recv_def Let_def)
  next
    case (Cons e rest)
    with d obtain bs where e: "e = Data bs" "bs \<noteq> []" "delivering rest"
      by (cases e) (auto simp: delivering_def)
    show ?thesis
    proof (cases "length bs \<le> min n rlen")
      case True
      with nz Cons e have "httpd_req_recv pend rlen n = (int (length bs), bs, rest, rlen - length bs)"
        by (simp add: httpd_req_recv_def Let_def)
      moreover from e(2) have "0 < length bs" by simp
      ultimately show ?thesis using True e(3) by auto
    next
      case False
      let ?m = "min n rlen"
      from False nz Cons e
      have "httpd_req_recv pend rlen n = (int ?m, take ?m bs, Data (drop ?m bs) # rest, rlen - ?m)"
        by (simp add: httpd_req_recv_def Let_def)
      moreover from False have "drop ?m bs \<noteq> []" by simp
      with e(3) have "delivering (Data (drop ?m bs) # rest)" by (simp add: delivering_def)
      moreover from nz have "0 < ?m" by simp
      ultimately show ?thesis by (intro disjI2 exI[of _ ?m]) auto
    qed
  qed
qed

lemma drain_body_exhausts:
  "delivering (pending st) \<Longrightarrow> int (remaining_len st) \<le> remaining st \<Longrightarrow>
   remaining_len (drain_body st) = 0 \<or> pending (drain_body st) = []"
proof (induction st rule: drain_body.induct)
  case (1 st)
  show ?case
  proof (cases "remaining st > 0")
    case False
    with "1.prems"(2) have "remaining_len st = 0" by simp
    moreover from False have "drain_body st = st" by (simp add: drain_body.simps)
    ultimately show ?thesis by simp
  next
    case True
    let ?n = "min (nat (remaining st)) 128"
    from True have n: "0 < ?n" by simp
    from httpd_req_recv_delivering[OF "1.prems"(1) n, of "remaining_len st"]
    show ?thesis
    proof (elim disjE conjE exE)
      assume "remaining_len st = 0"
         and "httpd_req_recv (pending st) (remaining_len st) ?n = (0, [], pending st, remaining_len st)"
      with True show ?thesis by (simp add: drain_body.simps[of st])
    next
      assume "pending st = []"
         and "httpd_req_recv (pending st) (remaining_len st) ?n = (0, [], pending st, remaining_len st)"
      with True show ?thesis by (simp add: drain_body.simps[of st])
    next
      fix ret data pend'
      assume r: "httpd_req_recv (pending st) (remaining_len st) ?n
                   = (int ret, data, pend', remaining_len st - ret)"
         and pos: "0 < ret" and le: "ret \<le> remaining_len st" and d: "delivering pend'"
      let ?st1 = "st\<lparr>pending := pend', remaining_len := remaining_len st - ret,
                       trace := trace st @ [EvRecv (int ret)]\<rparr>"
      let ?st2 = "?st1\<lparr>remaining := max 0 (remaining st - int ret)\<rparr>"
      from pos have gt: "\<not> int ret \<le> 0" by simp
      from True r gt have eq: "drain_body st = drain_body ?st2"
        by (simp add: drain_body.simps[of st] Let_def)
      have p2: "delivering (pending ?st2)" using d by simp
      have r2: "int (remaining_len ?st2) \<le> remaining ?st2"
        using le "1.prems"(2) by simp
      from "1.IH"[OF True r[symmetric] refl refl refl gt p2 r2] eq show ?thesis by simp
    qed
  qed
qed


lemma upload_first_recv:
  assumes len: "0 < sint (content_len env)"
      and chunk: "chunk \<noteq> []" "length chunk \<le> UPLOAD_BUFFER_SIZE - 1"
                 "int (length chunk) \<le> sint (content_len env)"
  shows "upload_loop env boundary (upload_start env files (Data chunk # rest)) =
           (case upload_chunk env boundary
                   ((upload_start env files (Data chunk # rest))
                      \<lparr>pending := rest,
                       remaining_len := unat (content_len env) - length chunk,
                       trace := [EvMalloc UPLOAD_BUFFER_SIZE, EvRecv (int (length chunk))]\<rparr>)
                   chunk of
              Abort r s \<Rightarrow> Abort r s
            | Continue s \<Rightarrow>
                upload_loop env boundary
                  (s\<lparr>remaining := max 0 (remaining s - int (length chunk))\<rparr>))"
proof -
  let ?st0 = "upload_start env files (Data chunk # rest)"
  have f: "remaining ?st0 = sint (content_len env)" "pending ?st0 = Data chunk # rest"
          "remaining_len ?st0 = unat (content_len env)" "trace ?st0 = [EvMalloc UPLOAD_BUFFER_SIZE]"
    by (simp_all add: upload_start_def upload_init_def)
  from sint_pos_unat[OF len] chunk(3) have l1: "length chunk \<le> unat (content_len env)"
    by linarith
  from chunk(2,3) have l2: "length chunk \<le> nat (min (sint (content_len env)) (int UPLOAD_BUFFER_SIZE - 1))"
    by (simp add: UPLOAD_BUFFER_SIZE_def)
  from httpd_req_recv_whole[OF chunk(1) l2 l1, of rest]
  have r: "httpd_req_recv (pending ?st0) (remaining_len ?st0)
             (nat (min (remaining ?st0) (int UPLOAD_BUFFER_SIZE - 1)))
           = (int (length chunk), chunk, rest, unat (content_len env) - length chunk)"
    by (simp only: f)
  from chunk(1) have pos: "int (length chunk) > 0" by simp
  have rp: "remaining ?st0 > 0" using len f(1) by simp
  from upload_loop_step[OF rp r pos, of env boundary] show ?thesis
    by (simp only: f append_Cons append_Nil)
qed

text \<open>
  C2, as amended. When the first chunk names a file whose path exists on storage and the
  request does not ask for overwriting, the handler answers status 409 with the JSON
  status \<open>conflict\<close> and the filename, never calls \<^verbatim>\<open>fopen\<close> or \<^verbatim>\<open>fwrite\<close>, and
  leaves storage unchanged. Before answering it reads the rest of the declared body; it
  stops reading at the first receive that returns no data. So when every remaining piece
  arrives, no declared byte is left unread (or the peer has no more to send).
\<close>

theorem upload_conflict:
  assumes len: "0 < sint (content_len env)"
      and buf: "alloc_ok env 0" and nm: "alloc_ok env 1"
      and bnd: "multipart_boundary env = Some boundary"
      and chunk: "chunk \<noteq> []" "length chunk \<le> UPLOAD_BUFFER_SIZE - 1"
                 "int (length chunk) \<le> sint (content_len env)"
      and name: "parse_filename (c_str chunk) = Filename name"
      and path: "build_filepath FILE_PATH_MAX MOUNT_POINT (Some name) = Some path"
      and exists: "files path = Some old"
      and now: "\<not> should_overwrite env"
      and json: "json_ok env"
  shows "\<exists>st. upload_post_handler env files (Data chunk # rest) = (ESP_OK, conflict_json name, st)
           \<and> reply_code (conflict_json name) = ''409 Conflict''
           \<and> reply_status (conflict_json name) = Some ''conflict''
           \<and> reply_filename (conflict_json name) = Some name
           \<and> fs st = files
           \<and> (\<forall>p. EvFopen p \<notin> set (trace st)) \<and> (\<forall>bs. EvFwrite bs \<notin> set (trace st))
           \<and> (delivering rest \<longrightarrow> remaining_len st = 0 \<or> pending st = [])"
proof -
  let ?st0 = "upload_start env files (Data chunk # rest)"
  let ?st1 = "?st0\<lparr>pending := rest,
                     remaining_len := unat (content_len env) - length chunk,
                     trace := [EvMalloc UPLOAD_BUFFER_SIZE, EvRecv (int (length chunk))]\<rparr>"
  let ?q = "if url_query_len env + 1 > 1 then [EvMalloc (url_query_len env + 1)] else []"
  let ?st2 = "?st1\<lparr>filename := Some name,
                     trace := trace ?st1 @ [EvMalloc (length name + 1)] @ ?q\<rparr>"
  have f1: "\<not> file_data_started ?st1" "filename ?st1 = None"
    by (simp_all add: upload_start_def upload_init_def)
  have f2: "fs ?st2 = files" "fd ?st2 = None" "pending ?st2 = rest"
           "remaining ?st2 = sint (content_len env)"
           "remaining_len ?st2 = unat (content_len env) - length chunk"
           "trace ?st2 = [EvMalloc UPLOAD_BUFFER_SIZE, EvRecv (int (length chunk)),
                          EvMalloc (length name + 1)] @ ?q"
    by (simp_all add: upload_start_def upload_init_def)
  have "resolve_filename env ?st1 (c_str chunk) = open_target env ?st2 name path"
    by (rule resolve_filename_named[OF name nm path])
  also have "\<dots> = Abort (conflict_json name) (drain_body ?st2)"
    using exists now f2(1) by (simp add: open_target_def)
  finally have res: "(if filename ?st1 = None then resolve_filename env ?st1 (c_str chunk)
                      else Continue ?st1) = Abort (conflict_json name) (drain_body ?st2)"
    using f1(2) by simp
  have uc: "upload_chunk env boundary ?st1 chunk = Abort (conflict_json name) (drain_body ?st2)"
    by (rule upload_chunk_headers_abort[OF f1(1) res])
  have loop: "upload_loop env boundary ?st0 = Abort (conflict_json name) (drain_body ?st2)"
    using upload_first_recv[OF len chunk, of boundary files rest] uc by simp
  from drain_body_keeps[of ?st2] obtain rs where
    k: "fs (drain_body ?st2) = files" "fd (drain_body ?st2) = None"
       "trace (drain_body ?st2) = trace ?st2 @ map EvRecv rs"
    using f2(1,2) by auto
  have "fclose (drain_body ?st2) = drain_body ?st2" using k(2) by (simp add: fclose_def)
  with loop json have run: "upload_post_handler env files (Data chunk # rest)
                             = (ESP_OK, conflict_json name, drain_body ?st2)"
    by (simp add: upload_post_handler_loop[OF len buf bnd] cleanup_and_send_json_def
          send_json_upload_response_def Let_def)
  have tr: "(\<forall>p. EvFopen p \<notin> set (trace (drain_body ?st2)))
            \<and> (\<forall>bs. EvFwrite bs \<notin> set (trace (drain_body ?st2)))"
    unfolding k(3) f2(6) by auto
  have dr: "remaining_len (drain_body ?st2) = 0 \<or> pending (drain_body ?st2) = []"
    if "delivering rest"
  proof (rule drain_body_exhausts)
    show "delivering (pending ?st2)" using that f2(3) by simp
    show "int (remaining_len ?st2) \<le> remaining ?st2"
      unfolding f2(4,5) using sint_pos_unat[OF len] by linarith
  qed
  have rp: "reply_code (conflict_json name) = ''409 Conflict''"
           "reply_status (conflict_json name) = Some ''conflict''"
           "reply_filename (conflict_json name) = Some name"
    by (simp_all add: conflict_json_def reply_code_def reply_status_def reply_filename_def)
  from run rp k(1) tr dr show ?thesis by blast
qed


text \<open>
  A timeout during the draining ends it: the conflict is answered while 12 declared
  bytes of the body are still unread.
\<close>

theorem upload_conflict_counterexample:
  "fst (snd (upload_post_handler example_env [''/sdcard/a.txt'' \<mapsto> ''old'']
               [Data (take 80 example_body), SockErr HTTPD_SOCK_ERR_TIMEOUT,
                Data (drop 80 example_body)]))
     = conflict_json ''a.txt''
   \<and> remaining_len (snd (snd (upload_post_handler example_env [''/sdcard/a.txt'' \<mapsto> ''old'']
               [Data (take 80 example_body), SockErr HTTPD_SOCK_ERR_TIMEOUT,
                Data (drop 80 example_body)]))) = 12
   \<and> pending (snd (snd (upload_post_handler example_env [''/sdcard/a.txt'' \<mapsto> ''old'']
               [Data (take 80 example_body), SockErr HTTPD_SOCK_ERR_TIMEOUT,
                Data (drop 80 example_body)])))
     = [Data (''llo'' @ [CR, LF] @ ''--X--'' @ [CR, LF])]"
  by code_simp

theorem upload_conflict_witness:
  "0 < sint (content_len example_env) \<and> alloc_ok example_env 0 \<and> alloc_ok example_env 1
   \<and> multipart_boundary example_env = Some ''--X''
   \<and> take 80 example_body \<noteq> [] \<and> length (take 80 example_body) \<le> UPLOAD_BUFFER_SIZE - 1
   \<and> int (length (take 80 example_body)) \<le> sint (content_len example_env)
   \<and> parse_filename (c_str (take 80 example_body)) = Filename ''a.txt''
   \<and> build_filepath FILE_PATH_MAX MOUNT_POINT (Some ''a.txt'') = Some ''/sdcard/a.txt''
   \<and> [''/sdcard/a.txt'' \<mapsto> ''old''] ''/sdcard/a.txt'' = Some ''old''
   \<and> \<not> should_overwrite example_env \<and> json_ok example_env
   \<and> delivering [Data (drop 80 example_body)]
   \<and> (\<exists>st. upload_post_handler example_env [''/sdcard/a.txt'' \<mapsto> ''old'']
               (Data (take 80 example_body) # [Data (drop 80 example_body)])
             = (ESP_OK, conflict_json ''a.txt'', st)
          \<and> fs st ''/sdcard/a.txt'' = Some ''old''
          \<and> (\<forall>p. EvFopen p \<notin> set (trace st))
          \<and> (remaining_len st = 0 \<or> pending st = []))"
proof -
  have len: "0 < sint (content_len example_env)" by (simp add: example_env_def)
  have a0: "alloc_ok example_env 0" and a1: "alloc_ok example_env 1"
    and j: "json_ok example_env"
    by (simp_all add: example_env_def)
  have b: "multipart_boundary example_env = Some ''--X''" by code_simp
  have c1: "take 80 example_body \<noteq> []" by code_simp
  have c2: "length (take 80 example_body) \<le> UPLOAD_BUFFER_SIZE - 1" by code_simp
  have c3: "int (length (take 80 example_body)) \<le> sint (content_len example_env)"
    by code_simp
  have n: "parse_filename (c_str (take 80 example_body)) = Filename ''a.txt''" by code_simp
  have p: "build_filepath FILE_PATH_MAX MOUNT_POINT (Some ''a.txt'') = Some ''/sdcard/a.txt''"
    by code_simp
  have e: "[''/sdcard/a.txt'' \<mapsto> ''old''] ''/sdcard/a.txt'' = Some ''old''" by simp
  have o: "\<not> should_overwrite example_env"
    by (simp add: should_overwrite_def example_env_def)
  have d: "delivering [Data (drop 80 example_body)]" by code_simp
  from upload_conflict[where files = "[''/sdcard/a.txt'' \<mapsto> ''old'']"
         and rest = "[Data (drop 80 example_body)]", OF len a0 a1 b c1 c2 c3 n p e o j] d
  obtain st where
    "upload_post_handler example_env [''/sdcard/a.txt'' \<mapsto> ''old'']
       (Data (take 80 example_body) # [Data (drop 80 example_body)])
     = (ESP_OK, conflict_json ''a.txt'', st)"
    "fs st = [''/sdcard/a.txt'' \<mapsto> ''old'']"
    "\<forall>p. EvFopen p \<notin> set (trace st)"
    "remaining_len st = 0 \<or> pending st = []"
    by blast
  then have "\<exists>st. upload_post_handler example_env [''/sdcard/a.txt'' \<mapsto> ''old'']
               (Data (take 80 example_body) # [Data (drop 80 example_body)])
             = (ESP_OK, conflict_json ''a.txt'', st)
          \<and> fs st ''/sdcard/a.txt'' = Some ''old''
          \<and> (\<forall>p. EvFopen p \<notin> set (trace st))
          \<and> (remaining_len st = 0 \<or> pending st = [])"
    by auto
  with len a0 a1 b c1 c2 c3 n p e o j d show ?thesis by blast
qed

subsection \<open>The sink is opened before it is written\<close>























subsection \<open>A body received in several chunks\<close>

































subsection \<open>Locating the boundary\<close>

text \<open>
  \<open>loop_head n st\<close> is the state in which the receive loop, entered in \<open>st\<close>,
  starts its next iteration after \<open>n\<close> complete ones (\<open>None\<close> when it has left
  the loop before). \<open>scanned\<close> is the part of a chunk that the handler passes to
  \<^verbatim>\<open>strstr\<close> to look for the boundary: the bytes after the header separator as long
  as the file data has not started, the whole chunk afterwards. \<open>receives\<close> lists the
  return values of the receive calls of a trace.
\<close>

fun loop_head :: "upload_env \<Rightarrow> string \<Rightarrow> nat \<Rightarrow> upload_st \<Rightarrow> upload_st option" where
  "loop_head env boundary 0 st = Some st"
| "loop_head env boundary (Suc n) st =
     (if remaining st > 0 then
        (case httpd_req_recv (pending st) (remaining_len st)
                (nat (min (remaining st) (int UPLOAD_BUFFER_SIZE - 1))) of
           (ret, chunk, pend, rlen) \<Rightarrow>
             (let st1 = st\<lparr>pending := pend, remaining_len := rlen,
                            trace := trace st @ [EvRecv ret]\<rparr>
              in if ret \<le> 0 then None
                 else (case upload_chunk env boundary st1 chunk of
                         Abort r s \<Rightarrow> None
                       | Continue s \<Rightarrow>
                           loop_head env boundary n
                             (s\<lparr>remaining := max 0 (remaining s - ret)\<rparr>))))
      else None)"

definition scanned :: "bool \<Rightarrow> string \<Rightarrow> string option" where
  "scanned started chunk =
     (if started then Some chunk
      else (case strstr (c_str chunk) CRLFCRLF of
              None \<Rightarrow> None
            | Some k \<Rightarrow> Some (drop (k + 4) chunk)))"

fun receives :: "event list \<Rightarrow> int list" where
  "receives [] = []"
| "receives (EvRecv r # evs) = r # receives evs"
| "receives (e # evs) = receives evs"

lemma receives_append [simp]: "receives (xs @ ys) = receives xs @ receives ys"
  by (induction xs rule: receives.induct) simp_all

lemma receives_none: "\<forall>r. EvRecv r \<notin> set evs \<Longrightarrow> receives evs = []"
  by (induction evs rule: receives.induct) auto

lemma loop_head_loop:
  "loop_head env boundary n st = Some st' \<Longrightarrow>
   upload_loop env boundary st = upload_loop env boundary st'"
proof (induction n arbitrary: st)
  case 0
  then show ?case by simp
next
  case (Suc n)
  from Suc.prems have pos: "remaining st > 0" by (simp split: if_splits)
  obtain ret chunk pend rlen where
    r: "httpd_req_recv (pending st) (remaining_len st)
          (nat (min (remaining st) (int UPLOAD_BUFFER_SIZE - 1))) = (ret, chunk, pend, rlen)"
    by (cases "httpd_req_recv (pending st) (remaining_len st)
                 (nat (min (remaining st) (int UPLOAD_BUFFER_SIZE - 1)))")
  let ?st1 = "st\<lparr>pending := pend, remaining_len := rlen, trace := trace st @ [EvRecv ret]\<rparr>"
  from Suc.prems pos r have gt: "ret > 0" by (simp add: Let_def split: if_splits)
  show ?case
  proof (cases "upload_chunk env boundary ?st1 chunk")
    case (Abort rep s)
    with Suc.prems pos r gt show ?thesis by (simp add: Let_def)
  next
    case (Continue s)
    with Suc.prems pos r gt
    have "loop_head env boundary n (s\<lparr>remaining := max 0 (remaining s - ret)\<rparr>) = Some st'"
      by (simp add: Let_def)
    from Suc.IH[OF this] upload_loop_step[OF pos r gt, of env boundary] Continue
    show ?thesis by simp
  qed
qed

lemma fwrite_transport [simp]:
  "pending (fwrite st bytes) = pending st" "remaining_len (fwrite st bytes) = remaining_len st"
  by (simp_all add: fwrite_def split: option.splits)

lemma discard_chunk_transport:
  "pending (discard_chunk boundary st chunk) = pending st
   \<and> remaining_len (discard_chunk boundary st chunk) = remaining_len st"
  by (simp add: discard_chunk_def boundary_found_def split: option.splits)

lemma first_data_chunk_transport:
  "pending (first_data_chunk boundary st chunk k) = pending st
   \<and> remaining_len (first_data_chunk boundary st chunk k) = remaining_len st"
  by (simp add: first_data_chunk_def boundary_found_def Let_def split: option.splits)

lemma next_data_chunk_transport:
  "pending (next_data_chunk boundary st chunk) = pending st
   \<and> remaining_len (next_data_chunk boundary st chunk) = remaining_len st"
  by (simp add: next_data_chunk_def boundary_found_def Let_def split: option.splits)

lemma open_target_transport:
  "open_target env st name p = Continue s \<Longrightarrow>
   pending s = pending st \<and> remaining_len s = remaining_len st"
  by (auto simp: open_target_def split: if_splits)

lemma resolve_filename_transport:
  assumes "resolve_filename env st buf = Continue s"
  shows "pending s = pending st \<and> remaining_len s = remaining_len st"
proof (cases "parse_filename buf")
  case (Filename name)
  with assms obtain p st1 where "open_target env st1 name p = Continue s"
      "pending st1 = pending st" "remaining_len st1 = remaining_len st"
    by (simp add: resolve_filename_def Let_def split: if_splits option.splits)
  then show ?thesis using open_target_transport by fastforce
qed (use assms in \<open>simp_all add: resolve_filename_def\<close>)

lemma first_data_chunk_located:
  "strstr (c_str (drop k chunk)) boundary = Some b \<Longrightarrow>
   remaining (first_data_chunk boundary st chunk k) = 0"
  by (simp add: first_data_chunk_def boundary_found_def Let_def)

lemma next_data_chunk_located:
  "strstr (c_str chunk) boundary = Some b \<Longrightarrow>
   remaining (next_data_chunk boundary st chunk) = 0"
  by (simp add: next_data_chunk_def boundary_found_def Let_def)

lemma discard_chunk_located:
  "strstr (c_str chunk) boundary = Some b \<Longrightarrow>
   remaining (discard_chunk boundary st chunk) = 0"
  by (simp add: discard_chunk_def boundary_found_def)

lemma upload_chunk_located:
  assumes step: "upload_chunk env boundary st chunk = Continue s"
      and scan: "scanned (file_data_started st) chunk = Some region"
      and loc: "strstr (c_str region) boundary = Some b"
  shows "remaining s = 0 \<and> pending s = pending st \<and> remaining_len s = remaining_len st"
proof (cases "file_data_started st")
  case True
  with scan have region: "region = chunk" by (simp add: scanned_def)
  from step upload_chunk_started[OF True, of env boundary chunk]
  have s: "s = (if fd st \<noteq> None then next_data_chunk boundary st chunk
                else discard_chunk boundary st chunk)" by simp
  show ?thesis
  proof (cases "fd st = None")
    case T: True
    with s have "s = discard_chunk boundary st chunk" by simp
    with discard_chunk_located[of chunk boundary b st] discard_chunk_transport[of boundary st chunk]
         loc region show ?thesis by simp
  next
    case False
    with s have "s = next_data_chunk boundary st chunk" by simp
    with next_data_chunk_located[of chunk boundary b st] next_data_chunk_transport[of boundary st chunk]
         loc region show ?thesis by simp
  qed
next
  case False
  with scan obtain k where k: "strstr (c_str chunk) CRLFCRLF = Some k"
      and region: "region = drop (k + 4) chunk"
    by (auto simp: scanned_def split: option.splits)
  let ?r = "if filename st = None then resolve_filename env st (c_str chunk) else Continue st"
  show ?thesis
  proof (cases ?r)
    case (Abort r s')
    from upload_chunk_headers_abort[OF False Abort] step show ?thesis by simp
  next
    case (Continue st1)
    then have t1: "pending st1 = pending st \<and> remaining_len st1 = remaining_len st"
      by (auto dest: resolve_filename_transport split: if_splits)
    note u = upload_chunk_headers[OF False Continue, of boundary]
    show ?thesis
    proof (cases "fd st1 \<noteq> None \<and> filename st1 \<noteq> None")
      case True
      with u k step
      have "s = (first_data_chunk boundary st1 chunk (k + 4))\<lparr>file_data_started := True\<rparr>"
        by simp
      with first_data_chunk_located[of "k + 4" chunk boundary b st1]
           first_data_chunk_transport[of boundary st1 chunk "k + 4"] loc region t1
      show ?thesis by simp
    next
      case F1: False
      show ?thesis
      proof (cases "filename st1 \<noteq> None")
        case True
        with u k step F1
        have "s = (discard_chunk boundary st1 (drop (k + 4) chunk))\<lparr>file_data_started := True\<rparr>"
          by simp
        with discard_chunk_located[of "drop (k + 4) chunk" boundary b st1]
             discard_chunk_transport[of boundary st1 "drop (k + 4) chunk"] loc region t1
        show ?thesis by simp
      next
        case F2: False
        with u k step F1 show ?thesis by simp
      qed
    qed
  qed
qed


lemma fclose_transport [simp]:
  "remaining (fclose s) = remaining s" "pending (fclose s) = pending s"
  "remaining_len (fclose s) = remaining_len s" "receives (trace (fclose s)) = receives (trace s)"
  by (simp_all add: fclose_def)

text \<open>
  C7. Take any iteration of the receive loop in any run of the handler: the loop has
  reached the state \<open>st\<close> after \<open>n\<close> iterations, \<^verbatim>\<open>httpd_req_recv\<close> returns the
  chunk, and \<^verbatim>\<open>strstr\<close> locates the boundary in the part of the chunk that the handler
  scans. Then the chunk leaves the counter \<^verbatim>\<open>remaining\<close> at 0, whatever it was and
  whatever the transport still holds, the loop ends with that iteration, and the handler
  makes no further receive: at its end the transport is as this receive left it, and this
  receive is the last of the trace.
\<close>

theorem boundary_ends_receiving:
  assumes len: "0 < sint (content_len env)" and buf: "alloc_ok env 0"
      and bnd: "multipart_boundary env = Some boundary"
      and head: "loop_head env boundary n (upload_start env files events) = Some st"
      and pos: "remaining st > 0"
      and recv: "httpd_req_recv (pending st) (remaining_len st)
                   (nat (min (remaining st) (int UPLOAD_BUFFER_SIZE - 1))) = (ret, chunk, pend, rlen)"
      and got: "ret > 0"
      and step: "upload_chunk env boundary
                   (st\<lparr>pending := pend, remaining_len := rlen, trace := trace st @ [EvRecv ret]\<rparr>)
                   chunk = Continue s"
      and scan: "scanned (file_data_started st) chunk = Some region"
      and loc: "strstr (c_str region) boundary = Some b"
  shows "remaining s = 0
       \<and> upload_loop env boundary st = Continue (s\<lparr>remaining := 0\<rparr>)
       \<and> snd (snd (upload_post_handler env files events)) = fclose (s\<lparr>remaining := 0\<rparr>)
       \<and> remaining (snd (snd (upload_post_handler env files events))) = 0
       \<and> pending (snd (snd (upload_post_handler env files events))) = pend
       \<and> remaining_len (snd (snd (upload_post_handler env files events))) = rlen
       \<and> receives (trace (snd (snd (upload_post_handler env files events))))
           = receives (trace st) @ [ret]"
proof -
  let ?st1 = "st\<lparr>pending := pend, remaining_len := rlen, trace := trace st @ [EvRecv ret]\<rparr>"
  let ?fin = "s\<lparr>remaining := 0\<rparr>"
  from scan have scan1: "scanned (file_data_started ?st1) chunk = Some region" by simp
  from upload_chunk_located[OF step scan1 loc]
  have z: "remaining s = 0" and tp: "pending s = pend" "remaining_len s = rlen" by simp_all
  from z got have "s\<lparr>remaining := max 0 (remaining s - ret)\<rparr> = ?fin" by simp
  with upload_loop_step[OF pos recv got, of env boundary] step
  have "upload_loop env boundary st = upload_loop env boundary ?fin" by simp
  also have "\<dots> = Continue ?fin" by (rule upload_loop_done) simp
  finally have l: "upload_loop env boundary st = Continue ?fin" .
  with loop_head_loop[OF head]
  have "upload_loop env boundary (upload_start env files events) = Continue ?fin" by simp
  with upload_post_handler_loop[OF len buf bnd, of files events]
  have "upload_post_handler env files events = cleanup_and_send_json env None ?fin" by simp
  then have h: "snd (snd (upload_post_handler env files events)) = fclose ?fin"
    by (simp add: cleanup_state)
  from upload_chunk_trace[of env boundary ?st1 chunk] step
  obtain evs where "trace s = trace ?st1 @ evs" "\<forall>r. EvRecv r \<notin> set evs" by auto
  then have "receives (trace s) = receives (trace st) @ [ret]"
    by (simp add: receives_none)
  with z l h tp show ?thesis by simp
qed

text \<open>
  The example body with 200 bytes declared and a further piece \<open>more\<close> on the
  transport. Read as 80 + 12 bytes, the boundary is located in the second chunk, by the
  scan of a chunk of file data; read whole, it is located by the scan after the header
  separator. Both times 108 declared bytes stay unread.
\<close>

definition example_env_200 :: upload_env where
  "example_env_200 = example_env\<lparr>content_len := 200\<rparr>"

definition example_events :: "recv_event list" where
  "example_events = [Data (take 80 example_body), Data (drop 80 example_body), Data ''more'']"

definition example_head :: upload_st where
  "example_head =
     the (loop_head example_env_200 ''--X'' 1 (upload_start example_env_200 Map.empty example_events))"

theorem boundary_ends_receiving_witness:
  "loop_head example_env_200 ''--X'' 1 (upload_start example_env_200 Map.empty example_events)
     = Some example_head
   \<and> file_data_started example_head \<and> remaining example_head = 120
   \<and> httpd_req_recv (pending example_head) (remaining_len example_head)
        (nat (min (remaining example_head) (int UPLOAD_BUFFER_SIZE - 1)))
       = (12, drop 80 example_body, [Data ''more''], 108)
   \<and> scanned (file_data_started example_head) (drop 80 example_body) = Some (drop 80 example_body)
   \<and> strstr (c_str (drop 80 example_body)) ''--X'' = Some 5
   \<and> remaining (snd (snd (upload_post_handler example_env_200 Map.empty example_events))) = 0
   \<and> pending (snd (snd (upload_post_handler example_env_200 Map.empty example_events)))
       = [Data ''more'']
   \<and> remaining_len (snd (snd (upload_post_handler example_env_200 Map.empty example_events)))
       = 108
   \<and> receives (trace (snd (snd (upload_post_handler example_env_200 Map.empty example_events))))
       = [80, 12]
   \<and> scanned False example_body = Some (drop 78 example_body)
   \<and> strstr (c_str (drop 78 example_body)) ''--X'' = Some 7
   \<and> pending (snd (snd (upload_post_handler example_env_200 Map.empty
                           [Data example_body, Data ''more''])))
       = [Data ''more'']
   \<and> remaining_len (snd (snd (upload_post_handler example_env_200 Map.empty
                                 [Data example_body, Data ''more''])))
       = 108
   \<and> receives (trace (snd (snd (upload_post_handler example_env_200 Map.empty
                                   [Data example_body, Data ''more'']))))
       = [92]"
proof -
  let ?env = example_env_200
  have len: "0 < sint (content_len ?env)" by (simp add: example_env_200_def)
  have a0: "alloc_ok ?env 0" by (simp add: example_env_200_def example_env_def)
  have b: "multipart_boundary ?env = Some ''--X''" by code_simp
  let ?st = example_head
  have "loop_head ?env ''--X'' 1 (upload_start ?env Map.empty example_events) \<noteq> None"
    by code_simp
  then have head: "loop_head ?env ''--X'' 1 (upload_start ?env Map.empty example_events) = Some ?st"
    by (auto simp: example_head_def)
  have started: "file_data_started ?st" by code_simp
  have rem: "remaining ?st = 120" by code_simp
  then have pos: "remaining ?st > 0" by simp
  have recv: "httpd_req_recv (pending ?st) (remaining_len ?st)
                (nat (min (remaining ?st) (int UPLOAD_BUFFER_SIZE - 1)))
              = (12, drop 80 example_body, [Data ''more''], 108)"
    by code_simp
  let ?U = "upload_chunk ?env ''--X''
              (?st\<lparr>pending := [Data ''more''], remaining_len := 108,
                    trace := trace ?st @ [EvRecv 12]\<rparr>) (drop 80 example_body)"
  have "case ?U of Continue s \<Rightarrow> True | Abort r s \<Rightarrow> False" by code_simp
  then have step: "?U = Continue (final_state ?U)" by (cases ?U) simp_all
  have scan: "scanned (file_data_started ?st) (drop 80 example_body) = Some (drop 80 example_body)"
    by code_simp
  have loc: "strstr (c_str (drop 80 example_body)) ''--X'' = Some 5" by code_simp
  have tr: "receives (trace ?st) = [80]" by code_simp
  have got: "(12::int) > 0" by simp
  let ?F = "snd (snd (upload_post_handler ?env Map.empty example_events))"
  from boundary_ends_receiving[OF len a0 b head pos recv got step scan loc]
  have r2: "remaining ?F = 0" "pending ?F = [Data ''more'']" "remaining_len ?F = 108"
           "receives (trace ?F) = receives (trace ?st) @ [12]"
    by blast+
  from r2(4) tr have e2: "receives (trace ?F) = [80, 12]" by simp
  let ?ev1 = "[Data example_body, Data ''more'']"
  let ?s0 = "upload_start ?env Map.empty ?ev1"
  have head0: "loop_head ?env ''--X'' 0 ?s0 = Some ?s0" by simp
  have pos0: "remaining ?s0 > 0" by code_simp
  have recv0: "httpd_req_recv (pending ?s0) (remaining_len ?s0)
                 (nat (min (remaining ?s0) (int UPLOAD_BUFFER_SIZE - 1)))
               = (92, example_body, [Data ''more''], 108)"
    by code_simp
  let ?U0 = "upload_chunk ?env ''--X''
               (?s0\<lparr>pending := [Data ''more''], remaining_len := 108,
                     trace := trace ?s0 @ [EvRecv 92]\<rparr>) example_body"
  have "case ?U0 of Continue s \<Rightarrow> True | Abort r s \<Rightarrow> False" by code_simp
  then have step0: "?U0 = Continue (final_state ?U0)" by (cases ?U0) simp_all
  have ns: "\<not> file_data_started ?s0" by code_simp
  have sc: "scanned False example_body = Some (drop 78 example_body)" by code_simp
  with ns have scan0: "scanned (file_data_started ?s0) example_body = Some (drop 78 example_body)"
    by simp
  have loc0: "strstr (c_str (drop 78 example_body)) ''--X'' = Some 7" by code_simp
  have tr0: "receives (trace ?s0) = []" by code_simp
  have got0: "(92::int) > 0" by simp
  let ?G = "snd (snd (upload_post_handler ?env Map.empty ?ev1))"
  from boundary_ends_receiving[OF len a0 b head0 pos0 recv0 got0 step0 scan0 loc0]
  have r1: "pending ?G = [Data ''more'']" "remaining_len ?G = 108"
           "receives (trace ?G) = receives (trace ?s0) @ [92]"
    by blast+
  from r1(3) tr0 have e1: "receives (trace ?G) = [92]" by simp
  from head started rem recv scan loc r2(1,2,3) e2 sc loc0 r1(1,2) e1 show ?thesis by blast
qed

subsection \<open>The bytes written to the sink\<close>









subsection \<open>Opening the sink and replacing its content\<close>




end
